theory Spec2Isabelle
  imports Main "HOL-Library.Char_ord"
begin

section \<open>OpenDirMap\<close>

text \<open>
  \<^verbatim>\<open>type OpenDirMap map[string]bool\<close>.  A Go map variable may be \<^verbatim>\<open>nil\<close>; every
  method first calls \<^verbatim>\<open>Init\<close>, which replaces a nil map by an empty one.  The nil map
  is \<open>None\<close>, an allocated map is \<open>Some m\<close>.  Methods have a pointer receiver and
  update the map in place: the model returns the updated map.
\<close>

type_synonym OpenDirMap = "(string \<rightharpoonup> bool) option"

definition OpenDirMap_Init :: "OpenDirMap \<Rightarrow> (string \<rightharpoonup> bool)" where
  "OpenDirMap_Init dm = (case dm of None \<Rightarrow> Map.empty | Some m \<Rightarrow> m)"

definition OpenDirMap_IsOpen :: "OpenDirMap \<Rightarrow> string \<Rightarrow> bool \<times> OpenDirMap" where
  "OpenDirMap_IsOpen dm path =
     (let m = OpenDirMap_Init dm in
      case m path of
        Some v \<Rightarrow> (True, Some (m(path \<mapsto> True)))
      | None \<Rightarrow> (False, Some m))"

definition OpenDirMap_SetOpen :: "OpenDirMap \<Rightarrow> string \<Rightarrow> OpenDirMap" where
  "OpenDirMap_SetOpen dm path = (let m = OpenDirMap_Init dm in Some (m(path \<mapsto> True)))"

definition OpenDirMap_SetClosed :: "OpenDirMap \<Rightarrow> string \<Rightarrow> OpenDirMap" where
  "OpenDirMap_SetClosed dm path = (let m = OpenDirMap_Init dm in Some (m(path := None)))"

definition OpenDirMap_ClearFlags :: "OpenDirMap \<Rightarrow> OpenDirMap" where
  "OpenDirMap_ClearFlags dm =
     (let m = OpenDirMap_Init dm in
      Some (\<lambda>key. case m key of None \<Rightarrow> None | Some v \<Rightarrow> Some False))"

definition OpenDirMap_RemoveStale :: "OpenDirMap \<Rightarrow> OpenDirMap" where
  "OpenDirMap_RemoveStale dm =
     (let m = OpenDirMap_Init dm in
      Some (\<lambda>key. case m key of None \<Rightarrow> None
                   | Some val \<Rightarrow> if \<not> val then None else Some val))"

text \<open>The keys of a map (a nil map has none).\<close>

definition OpenDirMap_keys :: "OpenDirMap \<Rightarrow> string set" where
  "OpenDirMap_keys dm = dom (OpenDirMap_Init dm)"

text \<open>A sequence of \<^verbatim>\<open>IsOpen\<close> queries, one per path of the list, results dropped.\<close>

fun IsOpen_each :: "OpenDirMap \<Rightarrow> string list \<Rightarrow> OpenDirMap" where
  "IsOpen_each dm [] = dm"
| "IsOpen_each dm (p # ps) = IsOpen_each (snd (OpenDirMap_IsOpen dm p)) ps"

section \<open>Content search\<close>

subsection \<open>Library functions used by the search\<close>

text \<open>
  Bytes are \<^typ>\<open>char\<close> (8 bits), a byte slice is a \<^typ>\<open>string\<close>.  Go's \<^verbatim>\<open>int\<close> is
  modelled by \<^typ>\<open>int\<close>: every value below is bounded by the length of a line.

  \<^verbatim>\<open>bytes.Index(s, sep)\<close>: the index of the first instance of \<open>sep\<close> in \<open>s\<close>, or \<open>-1\<close>.
\<close>

fun bytes_Index :: "string \<Rightarrow> string \<Rightarrow> int" where
  "bytes_Index [] sep = (if sep = [] then 0 else -1)"
| "bytes_Index (x # xs) sep =
     (if take (length sep) (x # xs) = sep then 0
      else (let r = bytes_Index xs sep in if r < 0 then -1 else r + 1))"

text \<open>
  \<^verbatim>\<open>bytes.ToLower\<close>.  On a slice of ASCII bytes it adds \<^verbatim>\<open>'a' - 'A'\<close> to every byte in
  \<^verbatim>\<open>'A'..'Z'\<close>.  On a slice with a byte \<open>\<ge> 0x80\<close> it is
  \<^verbatim>\<open>bytes.Map(unicode.ToLower, s)\<close>, which decodes UTF-8, maps every rune through the
  Unicode tables and encodes the result: that part is the parameter \<open>ul\<close>.  Its
  result need not have the length of its argument.
\<close>

definition isASCII :: "string \<Rightarrow> bool" where
  "isASCII s = list_all (\<lambda>c. c < CHR 0x80) s"

definition ascii_lower :: "char \<Rightarrow> char" where
  "ascii_lower c =
     (if CHR ''A'' \<le> c \<and> c \<le> CHR ''Z'' then char_of (of_char c + (32::nat)) else c)"

definition bytes_ToLower :: "(string \<Rightarrow> string) \<Rightarrow> string \<Rightarrow> string" where
  "bytes_ToLower ul s = (if isASCII s then map ascii_lower s else ul s)"

text \<open>
  \<^verbatim>\<open>bufio.Scanner\<close> with the default split function \<^verbatim>\<open>ScanLines\<close>: a token is a line
  without its \<^verbatim>\<open>\n\<close>, and without one \<^verbatim>\<open>\r\<close> before it; a last line with no newline
  is a token when it is not empty.  A line that does not end within
  \<^verbatim>\<open>MaxScanTokenSize\<close> bytes stops the scan with \<^verbatim>\<open>ErrTooLong\<close>.  A reader is the
  bytes it delivers and the error, if any, that ends them (\<open>None\<close> is \<^verbatim>\<open>io.EOF\<close>);
  the scanner tokenises everything read before the error.
\<close>

datatype scan_error = ErrTooLong | ReadError string

type_synonym reader = "string \<times> string option"

definition MaxScanTokenSize :: nat where
  "MaxScanTokenSize = 64 * 1024"

definition dropCR :: "string \<Rightarrow> string" where
  "dropCR data = (if data \<noteq> [] \<and> last data = CHR 0x0D then butlast data else data)"

fun ScanLines :: "string \<Rightarrow> string \<Rightarrow> string list \<times> scan_error option" where
  "ScanLines acc [] =
     (if acc = [] then ([], None)
      else if MaxScanTokenSize \<le> length acc then ([], Some ErrTooLong)
      else ([dropCR acc], None))"
| "ScanLines acc (c # cs) =
     (if c = CHR 0x0A then
        (if MaxScanTokenSize \<le> length acc then ([], Some ErrTooLong)
         else (case ScanLines [] cs of (ls, e) \<Rightarrow> (dropCR acc # ls, e)))
      else ScanLines (acc @ [c]) cs)"

definition Scanner :: "reader \<Rightarrow> string list \<times> scan_error option" where
  "Scanner rd =
     (case ScanLines [] (fst rd) of
        (ls, Some e) \<Rightarrow> (ls, Some e)
      | (ls, None) \<Rightarrow> (ls, map_option ReadError (snd rd)))"

text \<open>\<^verbatim>\<open>ints.MaxInt\<close> and \<^verbatim>\<open>ints.MinInt\<close> are \<^const>\<open>max\<close> and \<^const>\<open>min\<close> on \<^typ>\<open>int\<close>.
  The slice expression \<^verbatim>\<open>s[lo:hi]\<close> for \<open>0 \<le> lo \<le> hi \<le> len(s)\<close>:\<close>

definition slice :: "string \<Rightarrow> int \<Rightarrow> int \<Rightarrow> string" where
  "slice s lo hi = take (nat (hi - lo)) (drop (nat lo) s)"

subsection \<open>Search matches\<close>

text \<open>
  Modelled from the spec: \<^verbatim>\<open>TextPos\<close>, \<^verbatim>\<open>TextRegion\<close> and \<^verbatim>\<open>NewTextRegion\<close> are declared
  outside the files at hand; a region is (start line, start column, end line, end
  column), lines counted from 0, columns in bytes.
\<close>

record TextPos =
  Ln :: int
  Ch :: int

record TextRegion =
  Start :: TextPos
  End :: TextPos

definition NewTextRegion :: "int \<Rightarrow> int \<Rightarrow> int \<Rightarrow> int \<Rightarrow> TextRegion" where
  "NewTextRegion stLn stCh edLn edCh =
     \<lparr>Start = \<lparr>Ln = stLn, Ch = stCh\<rparr>, End = \<lparr>Ln = edLn, Ch = edCh\<rparr>\<rparr>"

record FileSearchMatch =
  Reg :: TextRegion
  Text :: string

definition mst :: string where
  "mst = ''<mark>''"

definition med :: string where
  "med = ''</mark>''"

text \<open>The initial value of the package variable \<^verbatim>\<open>FileSearchContext\<close>; the search
  functions take its current value as the parameter \<open>ctx\<close>.\<close>

definition FileSearchContext :: int where
  "FileSearchContext = 30"

subsection \<open>ByteBufSearch\<close>

text \<open>
  The line \<open>bo\<close> returned by \<^verbatim>\<open>scan.Bytes()\<close> is a slice of the scanner's buffer.
  The offsets \<open>i\<close>, \<open>ci\<close>, \<open>cist\<close>, \<open>cied\<close> are computed on \<open>b\<close>, the folded copy
  in case-insensitive mode, and then used to slice \<open>bo\<close>.  When they lie within \<open>bo\<close>
  the snippet is the concatenation of the five copied pieces.  When one of them lies
  beyond \<open>len(bo)\<close>, or a slice has its bounds inverted, Go either panics or copies
  bytes of the scanner's buffer that are not part of the line: the model reports
  both as the fault \<open>BeyondLine\<close>.
\<close>

datatype search_fault = BeyondLine

datatype log_entry = LogScanError scan_error | LogOpenError string

text \<open>The inner loop \<^verbatim>\<open>for ci < sz\<close> on one line, with the counter and the match list
  it appends to.  The loop is entered only with a non-empty \<open>find\<close> (ByteBufSearch
  returns before it otherwise); the first test below stands for that.\<close>

function line_loop ::
  "int \<Rightarrow> int \<Rightarrow> string \<Rightarrow> string \<Rightarrow> string \<Rightarrow> string \<Rightarrow> int \<Rightarrow>
   int \<times> FileSearchMatch list \<Rightarrow> search_fault + int \<times> FileSearchMatch list" where
  "line_loop ctx ln bo b fnd findeff ci acc =
     (let sz = int (length b); fsz = int (length fnd) in
      if fsz = 0 then Inr acc
      else if ci < sz then
        (let i0 = bytes_Index (drop (nat ci) b) findeff in
         if i0 < 0 then Inr acc
         else
           (let i = i0 + ci;
                ci' = i + fsz;
                reg = NewTextRegion ln i ln ci';
                cist = max (i - ctx) 0;
                cied = min (ci' + ctx) sz in
            if cist \<le> i \<and> ci' \<le> cied \<and> cied \<le> int (length bo) then
              (let txt = slice bo cist i @ mst @ slice bo i ci' @ med @ slice bo ci' cied in
               line_loop ctx ln bo b fnd findeff ci'
                 (fst acc + 1, snd acc @ [\<lparr>Reg = reg, Text = txt\<rparr>]))
            else Inl BeyondLine))
      else Inr acc)"
  by pat_completeness auto
termination
  by (relation "measure (\<lambda>(ctx, ln, bo, b, fnd, findeff, ci, acc). nat (int (length b) - ci))")
     (auto simp: neq_Nil_conv)

text \<open>The outer loop \<^verbatim>\<open>for scan.Scan()\<close> over the lines, with the line number.\<close>

fun scan_loop ::
  "int \<Rightarrow> (string \<Rightarrow> string) \<Rightarrow> bool \<Rightarrow> string \<Rightarrow> string \<Rightarrow> string list \<Rightarrow> int \<Rightarrow>
   int \<times> FileSearchMatch list \<Rightarrow> search_fault + int \<times> FileSearchMatch list" where
  "scan_loop ctx ul ignoreCase fnd findeff [] ln acc = Inr acc"
| "scan_loop ctx ul ignoreCase fnd findeff (bo # rest) ln acc =
     (let b = (if ignoreCase then bytes_ToLower ul bo else bo) in
      case line_loop ctx ln bo b fnd findeff 0 acc of
        Inl f \<Rightarrow> Inl f
      | Inr acc' \<Rightarrow> scan_loop ctx ul ignoreCase fnd findeff rest (ln + 1) acc')"

text \<open>The result is the pair (count, matches), where the empty list is the nil slice
  (\<^verbatim>\<open>matches\<close> starts nil and only \<^verbatim>\<open>append\<close> changes it), and the log lines
  printed.\<close>

definition ByteBufSearch ::
  "int \<Rightarrow> (string \<Rightarrow> string) \<Rightarrow> reader \<Rightarrow> string \<Rightarrow> bool \<Rightarrow>
   (search_fault + int \<times> FileSearchMatch list) \<times> log_entry list" where
  "ByteBufSearch ctx ul rd fnd ignoreCase =
     (let fsz = length fnd in
      if fsz = 0 then (Inr (0, []), [])
      else
        (let findeff = (if ignoreCase then bytes_ToLower ul fnd else fnd) in
         case Scanner rd of (lines, err) \<Rightarrow>
           (scan_loop ctx ul ignoreCase fnd findeff lines 0 (0, []),
            (case err of None \<Rightarrow> [] | Some e \<Rightarrow> [LogScanError e]))))"

subsection \<open>FileSearch\<close>

text \<open>\<^verbatim>\<open>os.Open\<close> is the parameter \<open>os_Open\<close>: the error, or a reader on the file.
  The third component of the result lists the files opened and closed, in order;
  the deferred \<^verbatim>\<open>fp.Close()\<close> runs however ByteBufSearch ends.\<close>

datatype file_event = Opened string | Closed string

definition FileSearch ::
  "int \<Rightarrow> (string \<Rightarrow> string) \<Rightarrow> (string \<Rightarrow> string + reader) \<Rightarrow> string \<Rightarrow> string \<Rightarrow> bool \<Rightarrow>
   (search_fault + int \<times> FileSearchMatch list) \<times> log_entry list \<times> file_event list" where
  "FileSearch ctx ul os_Open filename fnd ignoreCase =
     (case os_Open filename of
        Inl err \<Rightarrow> (Inr (0, []), [LogOpenError err], [])
      | Inr fp \<Rightarrow>
          (case ByteBufSearch ctx ul fp fnd ignoreCase of
             (res, lg) \<Rightarrow> (res, lg, [Opened filename, Closed filename])))"

subsection \<open>What the search is specified to return\<close>

text \<open>
  A snippet as the specification describes it, for a match \<open>m\<close> among the scanned
  \<open>lines\<close>: the match lies on one line \<open>bo\<close> at the byte columns \<open>[i, ci)\<close>, and its
  text is up to \<open>ctx\<close> bytes of \<open>bo\<close> before column \<open>i\<close>, the start mark, the bytes
  \<open>[i, ci)\<close> of \<open>bo\<close>, the end mark, and up to \<open>ctx\<close> bytes of \<open>bo\<close> from column \<open>ci\<close>.
\<close>

definition snippet_ok :: "int \<Rightarrow> string list \<Rightarrow> FileSearchMatch \<Rightarrow> bool" where
  "snippet_ok ctx lines m =
     (let ln = Ln (Start (Reg m)); i = Ch (Start (Reg m)); ci = Ch (End (Reg m)) in
      0 \<le> ln \<and> nat ln < length lines \<and> Ln (End (Reg m)) = ln \<and>
      (let bo = lines ! nat ln in
       0 \<le> i \<and> i \<le> ci \<and> ci \<le> int (length bo) \<and>
       Text m = slice bo (max (i - ctx) 0) i @ mst @ slice bo i ci @ med @
                slice bo ci (min (ci + ctx) (int (length bo)))))"

text \<open>
  A match of the pattern \<open>fnd\<close> up to ASCII case, on the original line: the bytes of
  the line at the reported columns, folded, are the folded pattern.
\<close>

definition folded_match :: "string list \<Rightarrow> string \<Rightarrow> FileSearchMatch \<Rightarrow> bool" where
  "folded_match lines fnd m =
     (let ln = Ln (Start (Reg m)); i = Ch (Start (Reg m)); ci = Ch (End (Reg m)) in
      0 \<le> ln \<and> nat ln < length lines \<and> 0 \<le> i \<and>
      map ascii_lower (slice (lines ! nat ln) i ci) = map ascii_lower fnd)"

text \<open>What one round of the inner loop appends: a match found at offset \<open>i\<close> of the
  folded line \<open>b\<close>, cut out of the line \<open>bo\<close> at the same offsets.\<close>

definition hit :: "int \<Rightarrow> int \<Rightarrow> string \<Rightarrow> string \<Rightarrow> string \<Rightarrow> string \<Rightarrow> FileSearchMatch \<Rightarrow> bool" where
  "hit ctx ln bo b fnd fe m =
     (\<exists>i. 0 \<le> i \<and> Reg m = NewTextRegion ln i ln (i + int (length fnd)) \<and>
          i + int (length fe) \<le> int (length b) \<and>
          slice b i (i + int (length fe)) = fe \<and>
          max (i - ctx) 0 \<le> i \<and>
          i + int (length fnd) \<le> min (i + int (length fnd) + ctx) (int (length b)) \<and>
          min (i + int (length fnd) + ctx) (int (length b)) \<le> int (length bo) \<and>
          Text m = slice bo (max (i - ctx) 0) i @ mst @ slice bo i (i + int (length fnd)) @ med @
                   slice bo (i + int (length fnd))
                     (min (i + int (length fnd) + ctx) (int (length b))))"

text \<open>
  The line that is searched: the line itself, or its folded copy in case-insensitive
  mode; likewise the pattern searched for.
\<close>

definition fold_case :: "(string \<Rightarrow> string) \<Rightarrow> bool \<Rightarrow> string \<Rightarrow> string" where
  "fold_case ul ignoreCase s = (if ignoreCase then bytes_ToLower ul s else s)"

text \<open>The pattern \<open>fe\<close> stands in the line \<open>b\<close> at the byte column \<open>p\<close>.\<close>

definition occurs_at :: "string \<Rightarrow> string \<Rightarrow> nat \<Rightarrow> bool" where
  "occurs_at b fe p = (take (length fe) (drop p b) = fe)"

text \<open>
  Repeated, non-overlapping, leftmost-first matches of \<open>fe\<close> in the line \<open>b\<close> from the
  column \<open>lo\<close> on, each match \<open>w\<close> bytes wide, given by the columns \<open>cs\<close> where they
  start: the first column is the leftmost one at or after \<open>lo\<close> where the pattern
  stands, the next one is the leftmost one at or after the end of that match, and
  so on; after the last match the pattern stands nowhere in the rest of the line.
\<close>

fun leftmost_first :: "string \<Rightarrow> string \<Rightarrow> nat \<Rightarrow> nat \<Rightarrow> nat list \<Rightarrow> bool" where
  "leftmost_first b fe w lo [] = (\<forall>p \<in> {lo..<length b}. \<not> occurs_at b fe p)"
| "leftmost_first b fe w lo (c # cs) =
     (lo \<le> c \<and> c < length b \<and> occurs_at b fe c \<and> (\<forall>p \<in> {lo..<c}. \<not> occurs_at b fe p) \<and>
      leftmost_first b fe w (c + w) cs)"

text \<open>The region of a match \<open>w\<close> bytes wide at the column \<open>c\<close> of the line \<open>ln\<close>, and the
  regions of the matches at the columns \<open>css\<close>, one list of columns for each line from
  the line \<open>ln\<close> on, line after line.\<close>

definition match_region :: "int \<Rightarrow> nat \<Rightarrow> nat \<Rightarrow> TextRegion" where
  "match_region ln w c = NewTextRegion ln (int c) ln (int (c + w))"

fun regions_of :: "int \<Rightarrow> nat \<Rightarrow> nat list list \<Rightarrow> TextRegion list" where
  "regions_of ln w [] = []"
| "regions_of ln w (cs # css) = map (match_region ln w) cs @ regions_of (ln + 1) w css"

text \<open>Folding keeps the length of the pattern and of every line.\<close>

definition keeps_length :: "(string \<Rightarrow> string) \<Rightarrow> string \<Rightarrow> string list \<Rightarrow> bool" where
  "keeps_length ul fnd lines =
     (length (bytes_ToLower ul fnd) = length fnd \<and>
      list_all (\<lambda>bo. length (bytes_ToLower ul bo) = length bo) lines)"

section \<open>The file tree\<close>

subsection \<open>The environment: path library and file system\<close>

text \<open>
  The functions of \<^verbatim>\<open>path/filepath\<close> and the file system are parameters of the model,
  collected in an environment: nothing is assumed about them.  An \<^verbatim>\<open>error\<close> is its
  message; a pair \<^verbatim>\<open>(string, error)\<close> is a sum with the error to the left.

  \<open>filepath_Split2\<close> is the second result of \<^verbatim>\<open>filepath.Split\<close>.  \<open>filepath_Walk\<close>
  gives the calls that \<^verbatim>\<open>filepath.Walk\<close> makes to the function of ConfigOfFiles, in
  order: the path handed over, \<^verbatim>\<open>info.IsDir()\<close>, and the error handed over.  (That
  function answers \<^verbatim>\<open>SkipDir\<close> on every directory but the root, so these are the root
  and its entries.)
\<close>

record walk_call =
  wpath :: string
  wisdir :: bool
  werr :: "string option"

text \<open>
  Modelled from the spec: \<^verbatim>\<open>FileInfo\<close> with \<^verbatim>\<open>InitFile\<close> and \<^verbatim>\<open>IsDir\<close> is declared outside
  the files at hand.  It is the cached stat-derived metadata: kind, executable
  bit, modification time, size, icon hint.  \<^verbatim>\<open>InitFile\<close> stats a path and fails with
  an I/O error when it cannot; what it leaves in the receiver is not specified,
  so the environment's \<open>InitFile\<close> returns the new contents together with the error.
\<close>

datatype FileKind = KFile | KDir

record FileInfo =
  Kind :: FileKind
  Exec :: bool
  ModTime :: nat
  Size :: nat
  Ic :: string

definition FileInfo_IsDir :: "FileInfo \<Rightarrow> bool" where
  "FileInfo_IsDir fi = (Kind fi = KDir)"

definition FileInfo_zero :: FileInfo where
  "FileInfo_zero = \<lparr>Kind = KFile, Exec = False, ModTime = 0, Size = 0, Ic = []\<rparr>"

record env =
  os_Separator :: char
  filepath_Abs :: "string \<Rightarrow> string + string"
  filepath_Rel :: "string \<Rightarrow> string \<Rightarrow> string + string"
  filepath_Join :: "string list \<Rightarrow> string"
  filepath_Split2 :: "string \<Rightarrow> string"
  filepath_Walk :: "string \<Rightarrow> walk_call list"
  InitFile :: "FileInfo \<Rightarrow> string \<Rightarrow> string option \<times> FileInfo"

text \<open>\<^verbatim>\<open>strings.Split\<close> with a separator of one byte, \<^verbatim>\<open>strings.HasPrefix\<close> and
  \<^verbatim>\<open>strings.HasSuffix\<close>.\<close>

fun strings_Split :: "string \<Rightarrow> char \<Rightarrow> string list" where
  "strings_Split [] sep = [[]]"
| "strings_Split (c # cs) sep =
     (if c = sep then [] # strings_Split cs sep
      else (case strings_Split cs sep of
              [] \<Rightarrow> [[c]]
            | d # ds \<Rightarrow> (c # d) # ds))"

definition strings_HasPrefix :: "string \<Rightarrow> string \<Rightarrow> bool" where
  "strings_HasPrefix s pre = (length pre \<le> length s \<and> take (length pre) s = pre)"

definition strings_HasSuffix :: "string \<Rightarrow> string \<Rightarrow> bool" where
  "strings_HasSuffix s suf =
     (length suf \<le> length s \<and> drop (length s - length suf) s = suf)"

subsection \<open>Nodes, the tree and the state\<close>

text \<open>
  A FileNode with the fields the functions below use.  \<open>Ptr\<close> is the address of the
  node object (nodes are handled by pointer, and a node keeps its address for
  life); \<open>Typ\<close> is its Go type; \<open>Nm\<close> and \<open>Kids\<close> are the name and children of the
  embedded \<^verbatim>\<open>ki.Node\<close>; the two flags are bits of its flag word.  \<open>Buf\<close> and \<open>FRoot\<close> are
  pointers: \<open>None\<close> is nil.  The parent owns its children, so the children are
  part of the value.
\<close>

record NodeData =
  Ptr :: nat
  Typ :: string
  Nm :: string
  FileNodeOpen :: bool
  FileNodeSymLink :: bool
  FPath :: string
  Info :: FileInfo
  Buf :: "nat option"
  FRoot :: "nat option"

datatype FileNode = FileNode (dat: NodeData) (Kids: "FileNode list")

text \<open>
  The FileTree.  It embeds its root FileNode, so the address \<open>TPtr\<close> of the tree is
  the address of the root node, and \<^verbatim>\<open>ft.FPath\<close> is the root node's \<open>FPath\<close>: the
  field \<open>RootFPath\<close> is that alias, written whenever the path of the node at
  \<open>TPtr\<close> is.  The state holds one tree; a non-nil \<open>FRoot\<close> points at it.
\<close>

record FileTree =
  TPtr :: nat
  RootFPath :: string
  OpenDirs :: OpenDirMap
  DirsOnTop :: bool
  NodeType :: string

text \<open>The state outside the node at hand: the tree, the next free address, the
  lines logged, and the nodes on which \<^verbatim>\<open>UpdateEnd\<close> was called.\<close>

record world =
  tree :: FileTree
  nextPtr :: nat
  logs :: "string list"
  sigs :: "nat list"

text \<open>A call returns, panics, or exhausts the recursion depth \<open>n\<close> granted to it.\<close>

datatype panic = NilPointerDereference | SliceBoundsOutOfRange

datatype 'a outcome = OutOfFuel | Panic panic | Ret 'a

definition SetName :: "FileNode \<Rightarrow> string \<Rightarrow> FileNode" where
  "SetName fn nm = FileNode ((dat fn)\<lparr>Nm := nm\<rparr>) (Kids fn)"

definition SetOpen :: "FileNode \<Rightarrow> FileNode" where
  "SetOpen fn = FileNode ((dat fn)\<lparr>FileNodeOpen := True\<rparr>) (Kids fn)"

definition SetClosed :: "FileNode \<Rightarrow> FileNode" where
  "SetClosed fn = FileNode ((dat fn)\<lparr>FileNodeOpen := False\<rparr>) (Kids fn)"

definition IsOpen :: "FileNode \<Rightarrow> bool" where
  "IsOpen fn = FileNodeOpen (dat fn)"

definition IsDir :: "FileNode \<Rightarrow> bool" where
  "IsDir fn = FileInfo_IsDir (Info (dat fn))"

definition set_Info :: "FileNode \<Rightarrow> FileInfo \<Rightarrow> FileNode" where
  "set_Info fn fi = FileNode ((dat fn)\<lparr>Info := fi\<rparr>) (Kids fn)"

definition set_FRoot :: "FileNode \<Rightarrow> nat option \<Rightarrow> FileNode" where
  "set_FRoot fn r = FileNode ((dat fn)\<lparr>FRoot := r\<rparr>) (Kids fn)"

text \<open>The assignment \<^verbatim>\<open>fn.FPath = pth\<close>, seen through \<^verbatim>\<open>ft.FPath\<close> when \<open>fn\<close> is the root.\<close>

definition set_FPath :: "FileNode \<Rightarrow> string \<Rightarrow> world \<Rightarrow> FileNode \<times> world" where
  "set_FPath fn pth w =
     (FileNode ((dat fn)\<lparr>FPath := pth\<rparr>) (Kids fn),
      if Ptr (dat fn) = TPtr (tree w) then w\<lparr>tree := (tree w)\<lparr>RootFPath := pth\<rparr>\<rparr> else w)"

definition log_line :: "world \<Rightarrow> string \<Rightarrow> world" where
  "log_line w msg = w\<lparr>logs := logs w @ [msg]\<rparr>"

subsection \<open>FileTree: which directories are open\<close>

definition RelPath :: "env \<Rightarrow> string \<Rightarrow> string \<Rightarrow> world \<Rightarrow> string \<times> world" where
  "RelPath E base fpath w =
     (case filepath_Rel E base fpath of
        Inl err \<Rightarrow> ([], log_line w ''giv.FileNode RelPath error'')
      | Inr rpath \<Rightarrow> (rpath, w))"

definition IsDirOpen :: "env \<Rightarrow> string \<Rightarrow> world \<Rightarrow> bool \<times> world" where
  "IsDirOpen E fpath w =
     (if fpath = RootFPath (tree w) then (True, w)
      else (case RelPath E (RootFPath (tree w)) fpath w of (rp, w1) \<Rightarrow>
              (case OpenDirMap_IsOpen (OpenDirs (tree w1)) rp of (b, dm) \<Rightarrow>
                 (b, w1\<lparr>tree := (tree w1)\<lparr>OpenDirs := dm\<rparr>\<rparr>))))"

definition SetDirOpen :: "env \<Rightarrow> string \<Rightarrow> world \<Rightarrow> world" where
  "SetDirOpen E fpath w =
     (case RelPath E (RootFPath (tree w)) fpath w of (rp, w1) \<Rightarrow>
        w1\<lparr>tree := (tree w1)\<lparr>OpenDirs := OpenDirMap_SetOpen (OpenDirs (tree w1)) rp\<rparr>\<rparr>)"

definition SetDirClosed :: "env \<Rightarrow> string \<Rightarrow> world \<Rightarrow> world" where
  "SetDirClosed E fpath w =
     (case RelPath E (RootFPath (tree w)) fpath w of (rp, w1) \<Rightarrow>
        w1\<lparr>tree := (tree w1)\<lparr>OpenDirs := OpenDirMap_SetClosed (OpenDirs (tree w1)) rp\<rparr>\<rparr>)"

subsection \<open>ConfigOfFiles\<close>

text \<open>The function handed to \<^verbatim>\<open>filepath.Walk\<close>, on one call, with the two lists it
  appends to and the lines it logs.\<close>

definition walkFn ::
  "env \<Rightarrow> bool \<Rightarrow> string \<Rightarrow> string \<Rightarrow>
   (string \<times> string) list \<times> (string \<times> string) list \<times> string list \<Rightarrow> walk_call \<Rightarrow>
   (string \<times> string) list \<times> (string \<times> string) list \<times> string list" where
  "walkFn E dirsOnTop ty path acc c =
     (case acc of (config1, config2, lg) \<Rightarrow>
        (case werr c of
           Some err \<Rightarrow> (config1, config2, lg @ [''giv.FileNode ConfigFilesIn error''])
         | None \<Rightarrow>
             if wpath c = path then (config1, config2, lg)
             else
               (let fnm = filepath_Split2 E (wpath c) in
                if dirsOnTop then
                  (if wisdir c then (config1 @ [(ty, fnm)], config2, lg)
                   else (config1, config2 @ [(ty, fnm)], lg))
                else (config1 @ [(ty, fnm)], config2, lg))))"

definition ConfigOfFiles ::
  "env \<Rightarrow> FileNode \<Rightarrow> string \<Rightarrow> world \<Rightarrow> ((string \<times> string) list \<times> world) outcome" where
  "ConfigOfFiles E fn path w =
     (case FRoot (dat fn) of
        None \<Rightarrow> Panic NilPointerDereference
      | Some r \<Rightarrow>
          (let ty = NodeType (tree w) in
           case foldl (walkFn E (DirsOnTop (tree w)) ty path) ([], [], []) (filepath_Walk E path) of
             (config1, config2, lg) \<Rightarrow>
               Ret (if DirsOnTop (tree w) then config1 @ config2 else config1,
                    w\<lparr>logs := logs w @ lg\<rparr>)))"

subsection \<open>ConfigChildren\<close>

text \<open>
  Modelled from the spec: \<^verbatim>\<open>ConfigChildren\<close> of \<^verbatim>\<open>ki.Node\<close> is not in the files at hand.
  It reconciles the prior children with the list of (type, name) pairs: children
  whose (type, name) is in the list are kept, with their state, at the place of
  their pair; for a pair that no child has, a child is created; children whose
  (type, name) is not in the list are removed.  The first result says whether the
  children changed.  A created node is the zero value of its type, with the name
  set, at a fresh address.
\<close>

definition new_FileNode :: "nat \<Rightarrow> string \<times> string \<Rightarrow> FileNode" where
  "new_FileNode p tn =
     FileNode \<lparr>Ptr = p, Typ = fst tn, Nm = snd tn, FileNodeOpen = False,
               FileNodeSymLink = False, FPath = [], Info = FileInfo_zero, Buf = None,
               FRoot = None\<rparr> []"

fun config_kids :: "(string \<times> string) list \<Rightarrow> FileNode list \<Rightarrow> nat \<Rightarrow> FileNode list \<times> nat" where
  "config_kids [] kids nxt = ([], nxt)"
| "config_kids (tn # config) kids nxt =
     (case filter (\<lambda>k. (Typ (dat k), Nm (dat k)) = tn) kids of
        [] \<Rightarrow> (case config_kids config kids (Suc nxt) of
                 (ks, nxt') \<Rightarrow> (new_FileNode nxt tn # ks, nxt'))
      | kept \<Rightarrow> (case config_kids config kids nxt of
                   (ks, nxt') \<Rightarrow> (kept @ ks, nxt')))"

definition ConfigChildren ::
  "(string \<times> string) list \<Rightarrow> FileNode \<Rightarrow> world \<Rightarrow> bool \<times> FileNode \<times> world" where
  "ConfigChildren config fn w =
     (case config_kids config (Kids fn) (nextPtr w) of
        (ks, nxt) \<Rightarrow>
          (map (\<lambda>k. Ptr (dat k)) ks \<noteq> map (\<lambda>k. Ptr (dat k)) (Kids fn),
           FileNode (dat fn) ks, w\<lparr>nextPtr := nxt\<rparr>))"

subsection \<open>ReadDir, SetNodePath, UpdateNode\<close>

text \<open>
  ReadDir calls SetNodePath on every child, SetNodePath calls UpdateNode, and
  UpdateNode calls ReadDir on an open directory.  The recursion follows the file
  system, not the node, so ReadDir takes the depth \<open>n\<close> it may recurse to, and
  SetNodePath and UpdateNode take the ReadDir they call as the parameter \<open>rd\<close>.
  The results are the error returned (\<open>None\<close> is nil), the receiver as the call
  leaves it, and the state.
\<close>

definition UpdateNode_with ::
  "(FileNode \<Rightarrow> string \<Rightarrow> world \<Rightarrow> (string option \<times> FileNode \<times> world) outcome) \<Rightarrow>
   env \<Rightarrow> FileNode \<Rightarrow> world \<Rightarrow> (string option \<times> FileNode \<times> world) outcome" where
  "UpdateNode_with rd E fn w =
     (case InitFile E (Info (dat fn)) (FPath (dat fn)) of
        (Some err, fi) \<Rightarrow>
          Ret (Some (''giv.FileNode UpdateNode Path Error: '' @ err), set_Info fn fi,
               log_line w (''giv.FileNode UpdateNode Path Error: '' @ err))
      | (None, fi) \<Rightarrow>
          (let fn1 = set_Info fn fi in
           if IsDir fn1 then
             (case FRoot (dat fn1) of
                None \<Rightarrow> Panic NilPointerDereference
              | Some r \<Rightarrow>
                  (case IsDirOpen E (FPath (dat fn1)) w of
                     (True, w1) \<Rightarrow>
                       (case rd fn1 (FPath (dat fn1)) w1 of
                          OutOfFuel \<Rightarrow> OutOfFuel
                        | Panic m \<Rightarrow> Panic m
                        | Ret (err, fn2, w2) \<Rightarrow> Ret (None, fn2, w2))
                   | (False, w1) \<Rightarrow> Ret (None, fn1, w1)))
           else Ret (None, fn1, w)))"

definition SetNodePath_with ::
  "(FileNode \<Rightarrow> string \<Rightarrow> world \<Rightarrow> (string option \<times> FileNode \<times> world) outcome) \<Rightarrow>
   env \<Rightarrow> FileNode \<Rightarrow> string \<Rightarrow> world \<Rightarrow> (string option \<times> FileNode \<times> world) outcome" where
  "SetNodePath_with rd E fn path w =
     (case filepath_Abs E path of
        Inl err \<Rightarrow> Ret (Some err, fn, w)
      | Inr pth \<Rightarrow> (case set_FPath fn pth w of (fn1, w1) \<Rightarrow> UpdateNode_with rd E fn1 w1))"

text \<open>The loop of ReadDir over the children (\<open>froot\<close> is \<^verbatim>\<open>fn.FRoot\<close>); the error that
  SetNodePath returns is dropped.\<close>

fun ReadDir_kids ::
  "(FileNode \<Rightarrow> string \<Rightarrow> world \<Rightarrow> (string option \<times> FileNode \<times> world) outcome) \<Rightarrow>
   env \<Rightarrow> nat option \<Rightarrow> string \<Rightarrow> FileNode list \<Rightarrow> world \<Rightarrow>
   (FileNode list \<times> world) outcome" where
  "ReadDir_kids rd E froot path [] w = Ret ([], w)"
| "ReadDir_kids rd E froot path (sf # sfs) w =
     (let sf1 = set_FRoot sf froot;
          fp = filepath_Join E [path, Nm (dat sf1)] in
      case SetNodePath_with rd E sf1 fp w of
        OutOfFuel \<Rightarrow> OutOfFuel
      | Panic m \<Rightarrow> Panic m
      | Ret (err, sf2, w1) \<Rightarrow>
          (case ReadDir_kids rd E froot path sfs w1 of
             OutOfFuel \<Rightarrow> OutOfFuel
           | Panic m \<Rightarrow> Panic m
           | Ret (rest, w2) \<Rightarrow> Ret (sf2 # rest, w2)))"

fun ReadDir ::
  "nat \<Rightarrow> env \<Rightarrow> FileNode \<Rightarrow> string \<Rightarrow> world \<Rightarrow> (string option \<times> FileNode \<times> world) outcome" where
  "ReadDir 0 E fn path w = OutOfFuel"
| "ReadDir (Suc n) E fn path w =
     (let fnm = filepath_Split2 E path;
          fn1 = SetName fn fnm in
      case filepath_Abs E path of
        Inl err \<Rightarrow> Ret (Some err, fn1, w)
      | Inr pth \<Rightarrow>
          (case set_FPath fn1 pth w of (fn2, w2) \<Rightarrow>
             (case InitFile E (Info (dat fn2)) (FPath (dat fn2)) of
                (Some err, fi) \<Rightarrow>
                  Ret (Some err, set_Info fn2 fi,
                       log_line w2 ''giv.FileTree: could not read directory'')
              | (None, fi) \<Rightarrow>
                  (let fn3 = SetOpen (set_Info fn2 fi) in
                   case ConfigOfFiles E fn3 path w2 of
                     OutOfFuel \<Rightarrow> OutOfFuel
                   | Panic m \<Rightarrow> Panic m
                   | Ret (config, w3) \<Rightarrow>
                       (case ConfigChildren config fn3 w3 of (mods, fn4, w4) \<Rightarrow>
                          (case ReadDir_kids (\<lambda>k p v. ReadDir n E k p v) E (FRoot (dat fn4))
                                  path (Kids fn4) w4 of
                             OutOfFuel \<Rightarrow> OutOfFuel
                           | Panic m \<Rightarrow> Panic m
                           | Ret (kids, w5) \<Rightarrow>
                               Ret (None, FileNode (dat fn4) kids,
                                    if mods then w5\<lparr>sigs := sigs w5 @ [Ptr (dat fn4)]\<rparr>
                                    else w5)))))))"

definition UpdateNode ::
  "nat \<Rightarrow> env \<Rightarrow> FileNode \<Rightarrow> world \<Rightarrow> (string option \<times> FileNode \<times> world) outcome" where
  "UpdateNode n E fn w = UpdateNode_with (\<lambda>k p v. ReadDir n E k p v) E fn w"

definition SetNodePath ::
  "nat \<Rightarrow> env \<Rightarrow> FileNode \<Rightarrow> string \<Rightarrow> world \<Rightarrow> (string option \<times> FileNode \<times> world) outcome" where
  "SetNodePath n E fn path w = SetNodePath_with (\<lambda>k p v. ReadDir n E k p v) E fn path w"

definition OpenDir :: "nat \<Rightarrow> env \<Rightarrow> FileNode \<Rightarrow> world \<Rightarrow> (FileNode \<times> world) outcome" where
  "OpenDir n E fn w =
     (let fn1 = SetOpen fn in
      case FRoot (dat fn1) of
        None \<Rightarrow> Panic NilPointerDereference
      | Some r \<Rightarrow>
          (case UpdateNode n E fn1 (SetDirOpen E (FPath (dat fn1)) w) of
             OutOfFuel \<Rightarrow> OutOfFuel
           | Panic m \<Rightarrow> Panic m
           | Ret (err, fn2, w2) \<Rightarrow> Ret (fn2, w2)))"

definition CloseDir :: "env \<Rightarrow> FileNode \<Rightarrow> world \<Rightarrow> (FileNode \<times> world) outcome" where
  "CloseDir E fn w =
     (let fn1 = SetClosed fn in
      case FRoot (dat fn1) of
        None \<Rightarrow> Panic NilPointerDereference
      | Some r \<Rightarrow> Ret (fn1, SetDirClosed E (FPath (dat fn1)) w))"

subsection \<open>OpenDirsTo\<close>

text \<open>\<^verbatim>\<open>ChildByName(name, 0)\<close> of \<^verbatim>\<open>ki.Node\<close>: the first child of that name, here by its
  index.\<close>

fun IndexByName :: "FileNode list \<Rightarrow> string \<Rightarrow> nat option" where
  "IndexByName [] name = None"
| "IndexByName (k # ks) name =
     (if Nm (dat k) = name then Some 0 else map_option Suc (IndexByName ks name))"

text \<open>
  The loop of OpenDirsTo over the components still to walk, from the current node
  \<open>cfn\<close>: \<open>dr # rest\<close> are \<^verbatim>\<open>dirs[i:]\<close>, so \<open>rest = []\<close> is \<^verbatim>\<open>i == sz-1\<close>.  The results are
  the node found or the error, the current node as the walk leaves it (the
  directories opened below it are part of it), and the state.
\<close>

fun OpenDirsTo_loop ::
  "nat \<Rightarrow> env \<Rightarrow> FileNode \<Rightarrow> string list \<Rightarrow> world \<Rightarrow>
   ((string + FileNode) \<times> FileNode \<times> world) outcome" where
  "OpenDirsTo_loop n E cfn [] w = Ret (Inr cfn, cfn, w)"
| "OpenDirsTo_loop n E cfn (dr # rest) w =
     (case IndexByName (Kids cfn) dr of
        None \<Rightarrow>
          (if rest = [] then Ret (Inr cfn, cfn, w)
           else Ret (Inl ''giv.FileNode could not find node'', cfn,
                     log_line w ''giv.FileNode could not find node''))
      | Some i \<Rightarrow>
          (let sfn = Kids cfn ! i in
           if IsDir sfn \<or> rest = [] then
             (case (if rest \<noteq> [] \<and> \<not> IsOpen sfn then OpenDir n E sfn w else Ret (sfn, w)) of
                OutOfFuel \<Rightarrow> OutOfFuel
              | Panic m \<Rightarrow> Panic m
              | Ret (sfn1, w1) \<Rightarrow>
                  (case OpenDirsTo_loop n E sfn1 rest w1 of
                     OutOfFuel \<Rightarrow> OutOfFuel
                   | Panic m \<Rightarrow> Panic m
                   | Ret (res, sfn2, w2) \<Rightarrow>
                       Ret (res, FileNode (dat cfn) ((Kids cfn)[i := sfn2]), w2)))
           else Ret (Inl ''giv.FileNode non-terminal node is not a directory'', cfn,
                     log_line w ''giv.FileNode non-terminal node is not a directory'')))"

definition OpenDirsTo ::
  "nat \<Rightarrow> env \<Rightarrow> FileNode \<Rightarrow> string \<Rightarrow> world \<Rightarrow>
   ((string + FileNode) \<times> FileNode \<times> world) outcome" where
  "OpenDirsTo n E fn path w =
     (case filepath_Abs E path of
        Inl err \<Rightarrow>
          Ret (Inl err, fn, log_line w ''giv.FileNode OpenDirsTo: no absolute path'')
      | Inr pth \<Rightarrow>
          (case RelPath E (FPath (dat fn)) pth w of (rpath, w1) \<Rightarrow>
             if rpath = ''.'' then Ret (Inr fn, fn, w1)
             else if rpath = [] then
               Ret (Inl ''giv.FileNode OpenDirsTo path is not within file tree path'', fn,
                    log_line w1 ''giv.FileNode OpenDirsTo path is not within file tree path'')
             else OpenDirsTo_loop n E fn (strings_Split rpath (os_Separator E)) w1))"

subsection \<open>FindFile\<close>

text \<open>
  \<^verbatim>\<open>FuncDownMeFirst\<close> of \<^verbatim>\<open>ki.Node\<close>: the function is called on the node and then,
  depth first, on its children; where it answers false the traversal does not go
  below that node, and goes on with the other branches.  The function of
  FindFile keeps the node found in its closure, here the accumulator.
\<close>

fun FuncDownMeFirst :: "(FileNode \<Rightarrow> 'a \<Rightarrow> bool \<times> 'a) \<Rightarrow> FileNode \<Rightarrow> 'a \<Rightarrow> 'a" where
  "FuncDownMeFirst f (FileNode d ks) acc =
     (case f (FileNode d ks) acc of
        (go, acc1) \<Rightarrow> if go then foldl (\<lambda>a k. FuncDownMeFirst f k a) acc1 ks else acc1)"

definition FindFile ::
  "nat \<Rightarrow> env \<Rightarrow> FileNode \<Rightarrow> string \<Rightarrow> world \<Rightarrow> (FileNode option \<times> FileNode \<times> world) outcome" where
  "FindFile n E fn fnm w =
     (if fnm = [] then Ret (None, fn, w)
      else if length fnm < 2 then Panic SliceBoundsOutOfRange
      else
        (let fneff =
               (if take 2 fnm = ''..'' then
                  (case dropWhile (\<lambda>dr. dr = ''..'') (strings_Split fnm (os_Separator E)) of
                     [] \<Rightarrow> fnm
                   | ds \<Rightarrow> filepath_Join E ds)
                else fnm) in
         if strings_HasPrefix fneff (FPath (dat fn)) then
           (case OpenDirsTo n E fn fneff w of
              OutOfFuel \<Rightarrow> OutOfFuel
            | Panic m \<Rightarrow> Panic m
            | Ret (Inr ffn, fn1, w1) \<Rightarrow> Ret (Some ffn, fn1, w1)
            | Ret (Inl err, fn1, w1) \<Rightarrow> Ret (None, fn1, w1))
         else
           Ret (fst (FuncDownMeFirst
                       (\<lambda>sfn acc. if strings_HasSuffix (FPath (dat sfn)) fneff
                                   then (False, (Some sfn, True)) else (True, acc))
                       fn (None, False)),
                fn, w)))"

subsection \<open>Notions used to state the properties\<close>

text \<open>The names that the function of ConfigOfFiles takes from a sequence of calls,
  in order, each with \<^verbatim>\<open>info.IsDir()\<close>; the listing of \<open>path\<close> is what it takes from the
  calls of \<^verbatim>\<open>filepath.Walk\<close>.\<close>

definition entries :: "env \<Rightarrow> string \<Rightarrow> walk_call list \<Rightarrow> (string \<times> bool) list" where
  "entries E path calls =
     map (\<lambda>c. (filepath_Split2 E (wpath c), wisdir c))
       (filter (\<lambda>c. werr c = None \<and> wpath c \<noteq> path) calls)"

definition listing :: "env \<Rightarrow> string \<Rightarrow> (string \<times> bool) list" where
  "listing E path = entries E path (filepath_Walk E path)"

text \<open>The file system below \<open>path\<close> is less than \<open>n\<close> levels deep: then ReadDir with
  depth \<open>n\<close> does not run out of it.\<close>

fun within_depth :: "env \<Rightarrow> nat \<Rightarrow> string \<Rightarrow> bool" where
  "within_depth E 0 path = False"
| "within_depth E (Suc n) path =
     list_all (\<lambda>nm. case filepath_Abs E (filepath_Join E [path, nm]) of
                      Inl err \<Rightarrow> True
                    | Inr p \<Rightarrow> within_depth E n p)
       (map fst (listing E path))"


text \<open>
  Every node of \<open>fn\<close>, itself included, belongs to a tree: its \<open>FRoot\<close> is not nil.
\<close>

fun in_tree :: "FileNode \<Rightarrow> bool" where
  "in_tree (FileNode d ks) = (FRoot d \<noteq> None \<and> list_all in_tree ks)"

text \<open>
  Walking the components \<open>ds\<close> from the node \<open>cfn\<close>, where each of them resolves to
  a child that is a directory, opened when it is not open: the node reached and
  the state then.  The walk answers \<open>None\<close> when a component has no child of its
  name or resolves to a child that is not a directory; when a call of OpenDir on
  the way panics or exhausts its depth, so does the walk.
\<close>

fun descend ::
  "nat \<Rightarrow> env \<Rightarrow> FileNode \<Rightarrow> string list \<Rightarrow> world \<Rightarrow> (FileNode \<times> world) option outcome" where
  "descend n E cfn [] w = Ret (Some (cfn, w))"
| "descend n E cfn (dr # ds) w =
     (case IndexByName (Kids cfn) dr of
        None \<Rightarrow> Ret None
      | Some i \<Rightarrow>
          (let sfn = Kids cfn ! i in
           if IsDir sfn then
             (if IsOpen sfn then descend n E sfn ds w
              else (case OpenDir n E sfn w of
                      Ret (sfn1, w1) \<Rightarrow> descend n E sfn1 ds w1
                    | Panic m \<Rightarrow> Panic m
                    | OutOfFuel \<Rightarrow> OutOfFuel))
           else Ret None))"

subsection \<open>A small file system\<close>

text \<open>
  An environment for the examples: the directory \<^verbatim>\<open>/r\<close> holds the directory \<^verbatim>\<open>a\<close> and
  the file \<^verbatim>\<open>b.txt\<close>, and \<^verbatim>\<open>/r/a\<close> holds the file \<^verbatim>\<open>x.go\<close>.  All paths are absolute
  and clean, the separator is the slash.
\<close>

definition ex_dir :: FileInfo where
  "ex_dir = \<lparr>Kind = KDir, Exec = True, ModTime = 1, Size = 64, Ic = ''folder''\<rparr>"

definition ex_file :: FileInfo where
  "ex_file = \<lparr>Kind = KFile, Exec = False, ModTime = 1, Size = 10, Ic = ''file''\<rparr>"

definition ex_join :: "string list \<Rightarrow> string" where
  "ex_join ps = (case ps of [] \<Rightarrow> [] | p # qs \<Rightarrow> p @ concat (map (\<lambda>q. CHR ''/'' # q) qs))"

definition ex_walk :: "string \<Rightarrow> walk_call list" where
  "ex_walk path =
     (if path = ''/r'' then
        [\<lparr>wpath = ''/r'', wisdir = True, werr = None\<rparr>,
         \<lparr>wpath = ''/r/a'', wisdir = True, werr = None\<rparr>,
         \<lparr>wpath = ''/r/b.txt'', wisdir = False, werr = None\<rparr>]
      else if path = ''/r/a'' then
        [\<lparr>wpath = ''/r/a'', wisdir = True, werr = None\<rparr>,
         \<lparr>wpath = ''/r/a/x.go'', wisdir = False, werr = None\<rparr>]
      else if path = ''/r/b.txt'' \<or> path = ''/r/a/x.go'' then
        [\<lparr>wpath = path, wisdir = False, werr = None\<rparr>]
      else [\<lparr>wpath = path, wisdir = False, werr = Some ''lstat: no such file or directory''\<rparr>])"

definition ex_stat :: "FileInfo \<Rightarrow> string \<Rightarrow> string option \<times> FileInfo" where
  "ex_stat fi path =
     (if path = ''/r'' \<or> path = ''/r/a'' then (None, ex_dir)
      else if path = ''/r/b.txt'' \<or> path = ''/r/a/x.go'' then (None, ex_file)
      else (Some ''stat: no such file or directory'', fi))"

definition ex_rel :: "string \<Rightarrow> string \<Rightarrow> string + string" where
  "ex_rel base targ =
     (if targ = base then Inr ''.''
      else if strings_HasPrefix targ (base @ ''/'') then Inr (drop (Suc (length base)) targ)
      else Inl ''Rel: can't make relative'')"

definition ex_env :: env where
  "ex_env =
     \<lparr>os_Separator = CHR ''/'',
      filepath_Abs = Inr,
      filepath_Rel = ex_rel,
      filepath_Join = ex_join,
      filepath_Split2 = (\<lambda>p. rev (takeWhile (\<lambda>c. c \<noteq> CHR ''/'') (rev p))),
      filepath_Walk = ex_walk,
      InitFile = ex_stat\<rparr>"

text \<open>The tree at address 1, with directories first, the directory \<^verbatim>\<open>a\<close> recorded as
  open; and its root node before the first ReadDir.\<close>

definition ex_world :: world where
  "ex_world =
     \<lparr>tree = \<lparr>TPtr = 1, RootFPath = [], OpenDirs = Some [''a'' \<mapsto> False], DirsOnTop = True,
              NodeType = ''FileNode''\<rparr>,
      nextPtr = 2, logs = [], sigs = []\<rparr>"

definition ex_root :: FileNode where
  "ex_root =
     FileNode \<lparr>Ptr = 1, Typ = ''FileTree'', Nm = [], FileNodeOpen = False,
               FileNodeSymLink = False, FPath = [], Info = FileInfo_zero, Buf = None,
               FRoot = Some 1\<rparr> []"

text \<open>The order of the children that the ordering policy prescribes for a listing:
  with \<open>dirsOnTop\<close> the directories, then the files; otherwise the entries as
  enumerated.\<close>

definition child_order :: "bool \<Rightarrow> (string \<times> bool) list \<Rightarrow> string list" where
  "child_order dirsOnTop ents =
     (if dirsOnTop then map fst (filter snd ents) @ map fst (filter (\<lambda>e. \<not> snd e) ents)
      else map fst ents)"

text \<open>A function in the place of ReadDir that leaves the address and the buffer of
  its receiver as they are.\<close>

definition keeps :: "(FileNode \<Rightarrow> string \<Rightarrow> world \<Rightarrow> (string option \<times> FileNode \<times> world) outcome) \<Rightarrow> bool" where
  "keeps rd = (\<forall>k p v e k' v'. rd k p v = Ret (e, k', v') \<longrightarrow>
      Ptr (dat k') = Ptr (dat k) \<and> Buf (dat k') = Buf (dat k))"

text \<open>A function in the place of ReadDir that leaves its receiver in the tree when
  it was.\<close>

definition tree_kept :: "(FileNode \<Rightarrow> string \<Rightarrow> world \<Rightarrow> (string option \<times> FileNode \<times> world) outcome) \<Rightarrow> bool" where
  "tree_kept rd = (\<forall>k p v e k' v'. rd k p v = Ret (e, k', v') \<longrightarrow> in_tree k \<longrightarrow> in_tree k')"


text \<open>The root after a first ReadDir and some editing: the directory \<^verbatim>\<open>a\<close> not yet
  read, the file \<^verbatim>\<open>b.txt\<close> open in the buffer at address 7, and a node for a file
  \<^verbatim>\<open>old.txt\<close> that is no longer on disk.\<close>

definition ex_kid :: "nat \<Rightarrow> string \<Rightarrow> FileInfo \<Rightarrow> nat option \<Rightarrow> FileNode" where
  "ex_kid p nm fi buf =
     FileNode \<lparr>Ptr = p, Typ = ''FileNode'', Nm = nm, FileNodeOpen = (buf \<noteq> None),
               FileNodeSymLink = False, FPath = ''/r/'' @ nm, Info = fi, Buf = buf,
               FRoot = Some 1\<rparr> []"

definition ex_root2 :: FileNode where
  "ex_root2 =
     FileNode \<lparr>Ptr = 1, Typ = ''FileTree'', Nm = ''r'', FileNodeOpen = True,
               FileNodeSymLink = False, FPath = ''/r'', Info = ex_dir, Buf = None,
               FRoot = Some 1\<rparr>
       [ex_kid 4 ''old.txt'' ex_file None, ex_kid 3 ''b.txt'' ex_file (Some 7),
        ex_kid 2 ''a'' ex_dir None]"

definition ex_world2 :: world where
  "ex_world2 =
     \<lparr>tree = \<lparr>TPtr = 1, RootFPath = ''/r'', OpenDirs = Some [''a'' \<mapsto> True], DirsOnTop = True,
              NodeType = ''FileNode''\<rparr>,
      nextPtr = 5, logs = [], sigs = []\<rparr>"


section \<open>Properties of OpenDirMap\<close>

lemma OpenDirMap_keys_Some: "OpenDirMap_keys (Some m) = dom m"
  by (simp add: OpenDirMap_keys_def OpenDirMap_Init_def)

lemma IsOpen_each_Some:
  "IsOpen_each (Some m) S =
     Some (\<lambda>k. case m k of None \<Rightarrow> None | Some v \<Rightarrow> Some (v \<or> k \<in> set S))"
proof (induction S arbitrary: m)
  case Nil
  show ?case by (auto simp: fun_eq_iff split: option.splits)
next
  case (Cons p ps)
  show ?case
    by (cases "m p")
       (auto simp: OpenDirMap_IsOpen_def OpenDirMap_Init_def Cons.IH fun_eq_iff
             split: option.splits)
qed

lemma ClearFlags_Some:
  "OpenDirMap_ClearFlags dm =
     Some (\<lambda>k. case OpenDirMap_Init dm k of None \<Rightarrow> None | Some v \<Rightarrow> Some False)"
  by (simp add: OpenDirMap_ClearFlags_def)

text \<open>After \<^verbatim>\<open>ClearFlags\<close>, any sequence of \<^verbatim>\<open>IsOpen\<close> queries and \<^verbatim>\<open>RemoveStale\<close>, the
  keys left are the queried paths that were keys before.\<close>

lemma mark_sweep_keys:
  "OpenDirMap_keys (OpenDirMap_RemoveStale (IsOpen_each (OpenDirMap_ClearFlags dm) S))
     = set S \<inter> OpenDirMap_keys dm"
  by (auto simp: ClearFlags_Some IsOpen_each_Some OpenDirMap_RemoveStale_def
        OpenDirMap_keys_def OpenDirMap_Init_def dom_def split: option.splits if_splits)

text \<open>
  Claim C4 (mark and sweep).  For every OpenDirMap \<open>dm\<close> (nil or not) and every list
  \<open>S\<close> of keys of \<open>dm\<close>: \<^verbatim>\<open>ClearFlags\<close>, then one \<^verbatim>\<open>IsOpen\<close> query for each path of \<open>S\<close>,
  then \<^verbatim>\<open>RemoveStale\<close>, leaves a map whose keys are exactly the paths of \<open>S\<close>.
\<close>

theorem OpenDirMap_mark_sweep:
  assumes "set S \<subseteq> OpenDirMap_keys dm"
  shows "OpenDirMap_keys
           (OpenDirMap_RemoveStale (IsOpen_each (OpenDirMap_ClearFlags dm) S)) = set S"
  using assms by (auto simp: mark_sweep_keys)

text \<open>From the keys A, B, C, marking A and C leaves exactly A and C.\<close>

theorem OpenDirMap_mark_sweep_witness:
  "set [''A'', ''C'']
     \<subseteq> OpenDirMap_keys (Some [''A'' \<mapsto> True, ''B'' \<mapsto> True, ''C'' \<mapsto> False]) \<and>
   OpenDirMap_keys (OpenDirMap_RemoveStale (IsOpen_each
       (OpenDirMap_ClearFlags (Some [''A'' \<mapsto> True, ''B'' \<mapsto> True, ''C'' \<mapsto> False]))
       [''A'', ''C'']))
     = {''A'', ''C''}"
proof -
  have h: "set [''A'', ''C'']
     \<subseteq> OpenDirMap_keys (Some [''A'' \<mapsto> True, ''B'' \<mapsto> True, ''C'' \<mapsto> False])"
    by (simp add: OpenDirMap_keys_Some)
  show ?thesis using h OpenDirMap_mark_sweep [OF h] by simp
qed

section \<open>Properties of the search\<close>

lemma bytes_Index_found:
  "0 \<le> bytes_Index s sep \<Longrightarrow>
     bytes_Index s sep + int (length sep) \<le> int (length s) \<and>
     take (length sep) (drop (nat (bytes_Index s sep)) s) = sep"
proof (induction s)
  case Nil
  then show ?case by (simp split: if_splits)
next
  case (Cons x xs)
  show ?case
  proof (cases "take (length sep) (x # xs) = sep")
    case True
    then have "length (take (length sep) (x # xs)) = length sep"
      by simp
    then have "length sep \<le> length (x # xs)"
      by (simp del: take_Suc_Cons)
    with True show ?thesis by simp
  next
    case False
    with Cons.prems have r: "0 \<le> bytes_Index xs sep"
      by (simp add: Let_def split: if_splits)
    from Cons.IH [OF r] False r show ?thesis
      by (simp add: Let_def nat_add_distrib)
  qed
qed

lemma bytes_Index_first:
  "p < nat (bytes_Index s sep) \<Longrightarrow> \<not> occurs_at s sep p"
  unfolding occurs_at_def
proof (induction s arbitrary: p)
  case Nil
  then show ?case by (simp split: if_splits)
next
  case (Cons x xs)
  show ?case
  proof (cases p)
    case 0
    with Cons.prems show ?thesis by (auto simp: Let_def split: if_splits)
  next
    case (Suc q)
    with Cons.prems have "q < nat (bytes_Index xs sep)"
      by (auto simp: Let_def split: if_splits)
    from Cons.IH [OF this] Suc show ?thesis by simp
  qed
qed

lemma bytes_Index_none:
  "bytes_Index s sep < 0 \<Longrightarrow> \<not> occurs_at s sep p"
  unfolding occurs_at_def
proof (induction s arbitrary: p)
  case Nil
  then show ?case by (auto split: if_splits)
next
  case (Cons x xs)
  show ?case
  proof (cases p)
    case 0
    with Cons.prems show ?thesis by (auto simp: Let_def split: if_splits)
  next
    case (Suc q)
    from Cons.prems have "bytes_Index xs sep < 0"
      by (auto simp: Let_def split: if_splits)
    from Cons.IH [OF this] Suc show ?thesis by simp
  qed
qed

lemma bytes_Index_lt: "s \<noteq> [] \<Longrightarrow> bytes_Index s sep < int (length s)"
proof (induction s)
  case Nil
  then show ?case by simp
next
  case (Cons x xs)
  show ?case
  proof (cases "xs = []")
    case True
    then show ?thesis by (auto simp: Let_def)
  next
    case False
    from Cons.IH [OF this] show ?thesis by (auto simp: Let_def)
  qed
qed

lemma occurs_at_drop: "lo \<le> p \<Longrightarrow> occurs_at b fe p = occurs_at (drop lo b) fe (p - lo)"
  by (simp add: occurs_at_def)

text \<open>The columns of the leftmost-first matches are determined by the line, the
  pattern, the width and the column to start from.\<close>

lemma leftmost_first_unique:
  "leftmost_first b fe w lo cs \<Longrightarrow> leftmost_first b fe w lo cs' \<Longrightarrow> cs = cs'"
proof (induction cs arbitrary: lo cs')
  case Nil
  then show ?case by (cases cs') auto
next
  case (Cons c cs)
  show ?case
  proof (cases cs')
    case Nil
    with Cons.prems show ?thesis by auto
  next
    case c': (Cons c' cs'')
    have "c = c'"
    proof (rule ccontr)
      assume "c \<noteq> c'"
      then consider "c < c'" | "c' < c" by linarith
      then show False
      proof cases
        case 1
        with Cons.prems c' show False by auto
      next
        case 2
        with Cons.prems c' show False by auto
      qed
    qed
    with Cons.prems c' Cons.IH [of "c + w" cs''] show ?thesis by simp
  qed
qed

declare line_loop.simps [simp del]

lemma line_loop_sound:
  "line_loop ctx ln bo b fnd fe ci acc = Inr acc' \<Longrightarrow> 0 \<le> ci \<Longrightarrow>
   \<exists>new. snd acc' = snd acc @ new \<and> fst acc' = fst acc + int (length new) \<and>
         list_all (hit ctx ln bo b fnd fe) new"
proof (induction ctx ln bo b fnd fe ci acc rule: line_loop.induct)
  case (1 ctx ln bo b fnd fe ci acc)
  let ?r = "bytes_Index (drop (nat ci) b) fe"
  let ?i = "?r + ci"
  let ?cj = "?i + int (length fnd)"
  let ?cist = "max (?i - ctx) 0"
  let ?cied = "min (?cj + ctx) (int (length b))"
  let ?m = "\<lparr>Reg = NewTextRegion ln ?i ln ?cj,
             Text = slice bo ?cist ?i @ mst @ slice bo ?i ?cj @ med @ slice bo ?cj ?cied\<rparr>"
  show ?case
  proof (cases "fnd \<noteq> [] \<and> ci < int (length b) \<and> 0 \<le> ?r")
    case False
    with "1.prems" have "acc' = acc"
      by (auto simp: line_loop.simps [of ctx ln bo b fnd fe ci acc] Let_def split: if_splits)
    then show ?thesis by simp
  next
    case True
    with "1.prems" have ok: "?cist \<le> ?i" "?cj \<le> ?cied" "?cied \<le> int (length bo)"
      and rec: "line_loop ctx ln bo b fnd fe ?cj (fst acc + 1, snd acc @ [?m]) = Inr acc'"
      by (auto simp: line_loop.simps [of ctx ln bo b fnd fe ci acc] Let_def split: if_splits)
    from True "1.prems" have cj0: "0 \<le> ?cj" by simp
    have "\<exists>new. snd acc' = snd (fst acc + 1, snd acc @ [?m]) @ new \<and>
               fst acc' = fst (fst acc + 1, snd acc @ [?m]) + int (length new) \<and>
               list_all (hit ctx ln bo b fnd fe) new"
      using True ok rec cj0
      by (intro "1.IH" [OF refl refl _ _ refl _ refl refl refl refl refl _ refl]) auto
    then obtain new where new: "snd acc' = snd acc @ [?m] @ new"
      "fst acc' = fst acc + 1 + int (length new)" "list_all (hit ctx ln bo b fnd fe) new"
      by auto
    from True have f: "?r + int (length fe) \<le> int (length (drop (nat ci) b))"
      "take (length fe) (drop (nat ?r) (drop (nat ci) b)) = fe"
      using bytes_Index_found [of "drop (nat ci) b" fe] by auto
    have "hit ctx ln bo b fnd fe ?m"
      unfolding hit_def
      apply (rule exI [of _ ?i])
      using True "1.prems" ok f
      by (auto simp: slice_def nat_add_distrib add.commute)
    with new show ?thesis
      by (intro exI [of _ "?m # new"]) auto
  qed
qed

text \<open>The inner loop finds the leftmost-first matches of the folded pattern in the
  folded line, from the column it starts at.\<close>

lemma line_loop_columns:
  "line_loop ctx ln bo b fnd fe ci acc = Inr acc' \<Longrightarrow> 0 \<le> ci \<Longrightarrow> fnd \<noteq> [] \<Longrightarrow>
   \<exists>new cs. snd acc' = snd acc @ new \<and> fst acc' = fst acc + int (length new) \<and>
         map Reg new = map (match_region ln (length fnd)) cs \<and>
         leftmost_first b fe (length fnd) (nat ci) cs"
proof (induction ctx ln bo b fnd fe ci acc rule: line_loop.induct)
  case (1 ctx ln bo b fnd fe ci acc)
  let ?s = "drop (nat ci) b"
  let ?r = "bytes_Index ?s fe"
  let ?i = "?r + ci"
  let ?cj = "?i + int (length fnd)"
  let ?cist = "max (?i - ctx) 0"
  let ?cied = "min (?cj + ctx) (int (length b))"
  let ?m = "\<lparr>Reg = NewTextRegion ln ?i ln ?cj,
             Text = slice bo ?cist ?i @ mst @ slice bo ?i ?cj @ med @ slice bo ?cj ?cied\<rparr>"
  show ?case
  proof (cases "ci < int (length b) \<and> 0 \<le> ?r")
    case False
    with "1.prems" have a: "acc' = acc"
      by (auto simp: line_loop.simps [of ctx ln bo b fnd fe ci acc] Let_def split: if_splits)
    have "leftmost_first b fe (length fnd) (nat ci) []"
    proof (cases "ci < int (length b)")
      case True
      with False have "?r < 0" by simp
      have "\<not> occurs_at b fe p" if "p \<in> {nat ci..<length b}" for p
      proof -
        from that have "nat ci \<le> p" by simp
        from occurs_at_drop [OF this] bytes_Index_none [OF \<open>?r < 0\<close>] show ?thesis by simp
      qed
      then show ?thesis by simp
    next
      case False
      with "1.prems" show ?thesis by simp
    qed
    with a show ?thesis by simp
  next
    case True
    with "1.prems" have ok: "?cist \<le> ?i" "?cj \<le> ?cied" "?cied \<le> int (length bo)"
      and rec: "line_loop ctx ln bo b fnd fe ?cj (fst acc + 1, snd acc @ [?m]) = Inr acc'"
      by (auto simp: line_loop.simps [of ctx ln bo b fnd fe ci acc] Let_def split: if_splits)
    from True "1.prems" have cj0: "0 \<le> ?cj" by simp
    have "\<exists>new cs. snd acc' = snd (fst acc + 1, snd acc @ [?m]) @ new \<and>
               fst acc' = fst (fst acc + 1, snd acc @ [?m]) + int (length new) \<and>
               map Reg new = map (match_region ln (length fnd)) cs \<and>
               leftmost_first b fe (length fnd) (nat ?cj) cs"
      using True ok rec cj0 "1.prems"
      by (intro "1.IH" [OF refl refl _ _ refl _ refl refl refl refl refl _ refl]) auto
    then obtain new cs where new: "snd acc' = snd acc @ [?m] @ new"
      "fst acc' = fst acc + 1 + int (length new)"
      "map Reg new = map (match_region ln (length fnd)) cs"
      "leftmost_first b fe (length fnd) (nat ?cj) cs"
      by auto
    define cn where "cn = nat ci"
    define rn where "rn = nat ?r"
    from True "1.prems" have ci: "ci = int cn" and r: "?r = int rn"
      by (simp_all add: cn_def rn_def)
    have s: "?s = drop cn b" by (simp only: cn_def)
    from True ci have "cn < length b" by linarith
    then have ne: "drop cn b \<noteq> []" by simp
    from bytes_Index_lt [OF ne, of fe] r s have "rn < length b - cn" by simp
    then have lt: "rn + cn < length b" by linarith
    from True have "take (length fe) (drop (nat ?r) ?s) = fe"
      using bytes_Index_found [of ?s fe] by blast
    then have "take (length fe) (drop rn (drop cn b)) = fe"
      by (simp only: rn_def cn_def)
    then have occ: "occurs_at b fe (rn + cn)"
      by (simp add: occurs_at_def)
    have before: "\<forall>p \<in> {cn..<rn + cn}. \<not> occurs_at b fe p"
    proof
      fix p assume "p \<in> {cn..<rn + cn}"
      then have lo: "cn \<le> p" and "p - cn < rn" by auto
      then have "p - cn < nat (bytes_Index (drop cn b) fe)"
        by (simp only: rn_def cn_def)
      from bytes_Index_first [OF this] occurs_at_drop [OF lo] show "\<not> occurs_at b fe p"
        by simp
    qed
    from r ci have i: "?i = int (rn + cn)" by linarith
    from r ci have "?cj = int (rn + cn + length fnd)" by linarith
    then have nj: "nat ?cj = rn + cn + length fnd" by (simp only: nat_int)
    from new(4) have "leftmost_first b fe (length fnd) (rn + cn + length fnd) cs"
      by (simp only: nj)
    with lt occ before have lf: "leftmost_first b fe (length fnd) cn ((rn + cn) # cs)"
      by simp
    have rg: "Reg ?m = match_region ln (length fnd) (rn + cn)"
      using i by (simp add: match_region_def)
    have nci: "nat ci = cn" by (simp only: cn_def)
    have "snd acc' = snd acc @ (?m # new)" using new(1) by simp
    moreover have "fst acc' = fst acc + int (length (?m # new))" using new(2) by simp
    moreover have "map Reg (?m # new) = map (match_region ln (length fnd)) ((rn + cn) # cs)"
      using rg new(3) by simp
    ultimately show ?thesis
      unfolding nci using lf by blast
  qed
qed

lemma line_loop_total:
  "0 \<le> ctx \<Longrightarrow> length b = length bo \<Longrightarrow> length fe = length fnd \<Longrightarrow> 0 \<le> ci \<Longrightarrow>
   \<exists>acc'. line_loop ctx ln bo b fnd fe ci acc = Inr acc'"
proof (induction ctx ln bo b fnd fe ci acc rule: line_loop.induct)
  case (1 ctx ln bo b fnd fe ci acc)
  let ?r = "bytes_Index (drop (nat ci) b) fe"
  let ?i = "?r + ci"
  let ?cj = "?i + int (length fnd)"
  let ?cist = "max (?i - ctx) 0"
  let ?cied = "min (?cj + ctx) (int (length b))"
  let ?m = "\<lparr>Reg = NewTextRegion ln ?i ln ?cj,
             Text = slice bo ?cist ?i @ mst @ slice bo ?i ?cj @ med @ slice bo ?cj ?cied\<rparr>"
  show ?case
  proof (cases "fnd \<noteq> [] \<and> ci < int (length b) \<and> 0 \<le> ?r")
    case False
    with "1.prems" show ?thesis
      by (auto simp: line_loop.simps [of ctx ln bo b fnd fe ci acc] Let_def)
  next
    case True
    then have f: "?r + int (length fe) \<le> int (length (drop (nat ci) b))"
      using bytes_Index_found [of "drop (nat ci) b" fe] by auto
    with True "1.prems" have ok: "?cist \<le> ?i" "?cj \<le> ?cied" "?cied \<le> int (length bo)"
      by auto
    have "\<exists>acc'. line_loop ctx ln bo b fnd fe ?cj (fst acc + 1, snd acc @ [?m]) = Inr acc'"
      using True ok "1.prems"
      by (intro "1.IH" [OF refl refl _ _ refl _ refl refl refl refl refl _ refl]) auto
    with True ok show ?thesis
      by (auto simp: line_loop.simps [of ctx ln bo b fnd fe ci acc] Let_def)
  qed
qed

lemma scan_loop_sound:
  "scan_loop ctx ul ic fnd fe lines ln acc = Inr acc' \<Longrightarrow>
   \<exists>new. snd acc' = snd acc @ new \<and> fst acc' = fst acc + int (length new) \<and>
         list_all (\<lambda>m. \<exists>k<length lines.
            hit ctx (ln + int k) (lines ! k)
              (if ic then bytes_ToLower ul (lines ! k) else lines ! k) fnd fe m) new"
proof (induction lines arbitrary: ln acc)
  case Nil
  then show ?case by simp
next
  case (Cons bo rest)
  let ?b = "if ic then bytes_ToLower ul bo else bo"
  from Cons.prems obtain acc1 where
    l: "line_loop ctx ln bo ?b fnd fe 0 acc = Inr acc1" and
    r: "scan_loop ctx ul ic fnd fe rest (ln + 1) acc1 = Inr acc'"
    by (auto simp: Let_def split: sum.splits)
  from line_loop_sound [OF l] obtain n1 where n1: "snd acc1 = snd acc @ n1"
    "fst acc1 = fst acc + int (length n1)" "list_all (hit ctx ln bo ?b fnd fe) n1"
    by auto
  from Cons.IH [OF r] obtain n2 where n2: "snd acc' = snd acc1 @ n2"
    "fst acc' = fst acc1 + int (length n2)"
    "list_all (\<lambda>m. \<exists>k<length rest.
            hit ctx (ln + 1 + int k) (rest ! k)
              (if ic then bytes_ToLower ul (rest ! k) else rest ! k) fnd fe m) n2"
    by auto
  have a: "list_all (\<lambda>m. \<exists>k<length (bo # rest).
            hit ctx (ln + int k) ((bo # rest) ! k)
              (if ic then bytes_ToLower ul ((bo # rest) ! k) else (bo # rest) ! k) fnd fe m) n1"
    using n1(3) unfolding list_all_iff
    by (intro ballI exI [of _ 0]) auto
  have b: "list_all (\<lambda>m. \<exists>k<length (bo # rest).
            hit ctx (ln + int k) ((bo # rest) ! k)
              (if ic then bytes_ToLower ul ((bo # rest) ! k) else (bo # rest) ! k) fnd fe m) n2"
    unfolding list_all_iff
  proof
    fix m assume "m \<in> set n2"
    with n2(3) obtain k where "k < length rest"
      "hit ctx (ln + 1 + int k) (rest ! k)
              (if ic then bytes_ToLower ul (rest ! k) else rest ! k) fnd fe m"
      by (auto simp: list_all_iff)
    then show "\<exists>k<length (bo # rest).
            hit ctx (ln + int k) ((bo # rest) ! k)
              (if ic then bytes_ToLower ul ((bo # rest) ! k) else (bo # rest) ! k) fnd fe m"
      by (intro exI [of _ "Suc k"]) (auto simp: algebra_simps)
  qed
  from n1 n2 a b show ?case
    by (intro exI [of _ "n1 @ n2"]) auto
qed

lemma scan_loop_columns:
  "scan_loop ctx ul ic fnd fe lines ln acc = Inr acc' \<Longrightarrow> fnd \<noteq> [] \<Longrightarrow>
   \<exists>new css. snd acc' = snd acc @ new \<and> fst acc' = fst acc + int (length new) \<and>
         list_all2 (\<lambda>bo. leftmost_first (fold_case ul ic bo) fe (length fnd) 0) lines css \<and>
         map Reg new = regions_of ln (length fnd) css"
proof (induction lines arbitrary: ln acc)
  case Nil
  then show ?case by simp
next
  case (Cons bo rest)
  let ?b = "if ic then bytes_ToLower ul bo else bo"
  from Cons.prems obtain acc1 where
    l: "line_loop ctx ln bo ?b fnd fe 0 acc = Inr acc1" and
    r: "scan_loop ctx ul ic fnd fe rest (ln + 1) acc1 = Inr acc'"
    by (auto simp: Let_def split: sum.splits)
  from line_loop_columns [OF l _ Cons.prems(2)] obtain n1 cs where n1: "snd acc1 = snd acc @ n1"
    "fst acc1 = fst acc + int (length n1)" "map Reg n1 = map (match_region ln (length fnd)) cs"
    "leftmost_first ?b fe (length fnd) 0 cs"
    by auto
  from Cons.IH [OF r Cons.prems(2)] obtain n2 css where n2: "snd acc' = snd acc1 @ n2"
    "fst acc' = fst acc1 + int (length n2)"
    "list_all2 (\<lambda>bo. leftmost_first (fold_case ul ic bo) fe (length fnd) 0) rest css"
    "map Reg n2 = regions_of (ln + 1) (length fnd) css"
    by auto
  from n1 n2 show ?case
    by (intro exI [of _ "n1 @ n2"] exI [of _ "cs # css"]) (simp add: fold_case_def)
qed

lemma scan_loop_total:
  "0 \<le> ctx \<Longrightarrow> length fe = length fnd \<Longrightarrow>
   list_all (\<lambda>bo. length (if ic then bytes_ToLower ul bo else bo) = length bo) lines \<Longrightarrow>
   \<exists>acc'. scan_loop ctx ul ic fnd fe lines ln acc = Inr acc'"
proof (induction lines arbitrary: ln acc)
  case Nil
  then show ?case by simp
next
  case (Cons bo rest)
  let ?b = "if ic then bytes_ToLower ul bo else bo"
  from Cons.prems have "length ?b = length bo" by simp
  from line_loop_total [OF Cons.prems(1) this Cons.prems(2), of 0]
  obtain acc1 where l: "line_loop ctx ln bo ?b fnd fe 0 acc = Inr acc1" by blast
  from Cons.prems have "list_all (\<lambda>bo. length (if ic then bytes_ToLower ul bo else bo) = length bo) rest"
    by simp
  from Cons.IH [OF Cons.prems(1,2) this] obtain acc2 where
    "scan_loop ctx ul ic fnd fe rest (ln + 1) acc1 = Inr acc2" by blast
  with l show ?case by (simp add: Let_def)
qed

text \<open>The scanner cuts its input at every newline.\<close>

lemma fst_Scanner: "fst (Scanner rd) = fst (ScanLines [] (fst rd))"
  by (simp add: Scanner_def split: prod.splits option.splits)

lemma ScanLines_newline:
  "CHR 0x0A \<notin> set l \<Longrightarrow> length (acc @ l) < MaxScanTokenSize \<Longrightarrow>
   ScanLines acc (l @ CHR 0x0A # rest) =
     (dropCR (acc @ l) # fst (ScanLines [] rest), snd (ScanLines [] rest))"
proof (induction l arbitrary: acc)
  case Nil
  then show ?case by (simp split: prod.splits)
next
  case (Cons c l)
  from Cons.prems Cons.IH [of "acc @ [c]"] show ?case by auto
qed

lemma ScanLines_last:
  "CHR 0x0A \<notin> set l \<Longrightarrow> acc @ l \<noteq> [] \<Longrightarrow> length (acc @ l) < MaxScanTokenSize \<Longrightarrow>
   ScanLines acc l = ([dropCR (acc @ l)], None)"
proof (induction l arbitrary: acc)
  case Nil
  then show ?case by simp
next
  case (Cons c l)
  from Cons.prems Cons.IH [of "acc @ [c]"] show ?case by auto
qed

lemma length_bytes_ToLower: "isASCII s \<Longrightarrow> length (bytes_ToLower ul s) = length s"
  by (simp add: bytes_ToLower_def)

lemma keeps_length_ASCII: "isASCII fnd \<Longrightarrow> list_all isASCII lines \<Longrightarrow> keeps_length ul fnd lines"
  by (simp add: keeps_length_def length_bytes_ToLower list_all_iff)

lemma hit_snippet_ok:
  assumes "hit ctx (int k) (lines ! k) b fnd fe m" "k < length lines"
    "length b = length (lines ! k)"
  shows "snippet_ok ctx lines m"
  using assms
  by (auto simp: hit_def snippet_ok_def NewTextRegion_def Let_def)

lemma slice_map: "slice (map f s) lo hi = map f (slice s lo hi)"
  by (simp add: slice_def take_map drop_map)

lemma hit_folded_match:
  assumes "hit ctx (int k) (lines ! k) (map ascii_lower (lines ! k)) fnd (map ascii_lower fnd) m"
    "k < length lines"
  shows "folded_match lines fnd m"
  using assms
  by (auto simp: hit_def folded_match_def NewTextRegion_def Let_def slice_map)

text \<open>Where folding keeps the length of every line and of the pattern (always in
  case-sensitive mode, and on ASCII input), the search returns, and every snippet
  is as specified.\<close>

lemma snippet_shape:
  assumes "0 \<le> ctx"
    and "ic \<Longrightarrow> isASCII fnd \<and> list_all isASCII (fst (Scanner rd))"
  shows "\<exists>ms. fst (ByteBufSearch ctx ul rd fnd ic) = Inr (int (length ms), ms) \<and>
              list_all (snippet_ok ctx (fst (Scanner rd))) ms"
proof (cases "fnd = []")
  case True
  then show ?thesis by (simp add: ByteBufSearch_def)
next
  case False
  obtain lines err where sc: "Scanner rd = (lines, err)" by (cases "Scanner rd")
  let ?fe = "if ic then bytes_ToLower ul fnd else fnd"
  let ?fold = "\<lambda>bo. if ic then bytes_ToLower ul bo else bo"
  from assms(2) sc have len: "length ?fe = length fnd"
    "list_all (\<lambda>bo. length (?fold bo) = length bo) lines"
    by (auto simp: length_bytes_ToLower list_all_iff)
  from scan_loop_total [OF assms(1) len(1) len(2), of 0 "(0, [])"]
  obtain acc' where r: "scan_loop ctx ul ic fnd ?fe lines 0 (0, []) = Inr acc'" by blast
  from scan_loop_sound [OF r] obtain new where new: "snd acc' = new" "fst acc' = int (length new)"
    "list_all (\<lambda>m. \<exists>k<length lines. hit ctx (0 + int k) (lines ! k) (?fold (lines ! k)) fnd ?fe m) new"
    by auto
  have "list_all (snippet_ok ctx lines) new"
    unfolding list_all_iff
  proof
    fix m assume "m \<in> set new"
    with new(3) obtain k where k: "k < length lines"
      "hit ctx (int k) (lines ! k) (?fold (lines ! k)) fnd ?fe m"
      by (auto simp: list_all_iff)
    from len(2) k(1) have "length (?fold (lines ! k)) = length (lines ! k)"
      by (auto simp: list_all_length)
    from hit_snippet_ok [OF k(2) k(1) this] show "snippet_ok ctx lines m" .
  qed
  moreover have "acc' = (int (length new), new)"
    using new(1,2) by (cases acc') simp
  ultimately show ?thesis
    using False r sc by (auto simp: ByteBufSearch_def Let_def)
qed

text \<open>On ASCII input the case-insensitive search returns, and the bytes of the
  original line at the reported columns are the pattern up to ASCII case.\<close>

lemma ascii_fold_columns:
  assumes "0 \<le> ctx" and "isASCII fnd" and "list_all isASCII (fst (Scanner rd))"
  shows "\<exists>ms. fst (ByteBufSearch ctx ul rd fnd True) = Inr (int (length ms), ms) \<and>
              list_all (folded_match (fst (Scanner rd)) fnd) ms"
proof (cases "fnd = []")
  case True
  then show ?thesis by (simp add: ByteBufSearch_def)
next
  case False
  obtain lines err where sc: "Scanner rd = (lines, err)" by (cases "Scanner rd")
  let ?fe = "bytes_ToLower ul fnd"
  from assms(2,3) sc have len: "length ?fe = length fnd"
    "list_all (\<lambda>bo. length (if True then bytes_ToLower ul bo else bo) = length bo) lines"
    by (auto simp: length_bytes_ToLower list_all_iff)
  from scan_loop_total [OF assms(1) len(1) len(2), of 0 "(0, [])"]
  obtain acc' where r: "scan_loop ctx ul True fnd ?fe lines 0 (0, []) = Inr acc'" by blast
  from scan_loop_sound [OF r] obtain new where new: "snd acc' = new" "fst acc' = int (length new)"
    "list_all (\<lambda>m. \<exists>k<length lines. hit ctx (0 + int k) (lines ! k)
        (if True then bytes_ToLower ul (lines ! k) else lines ! k) fnd ?fe m) new"
    by auto
  have "list_all (folded_match lines fnd) new"
    unfolding list_all_iff
  proof
    fix m assume "m \<in> set new"
    with new(3) obtain k where k: "k < length lines"
      "hit ctx (int k) (lines ! k) (bytes_ToLower ul (lines ! k)) fnd ?fe m"
      by (auto simp: list_all_iff)
    from assms(3) sc k(1) have "isASCII (lines ! k)" by (auto simp: list_all_length)
    with k(2) assms(2) have "hit ctx (int k) (lines ! k) (map ascii_lower (lines ! k)) fnd
       (map ascii_lower fnd) m"
      by (simp add: bytes_ToLower_def)
    from hit_folded_match [OF this k(1)] show "folded_match lines fnd m" .
  qed
  moreover have "acc' = (int (length new), new)"
    using new(1,2) by (cases acc') simp
  ultimately show ?thesis
    using False r sc by (auto simp: ByteBufSearch_def Let_def)
qed

text \<open>
  The search of a non-empty pattern.  It returns when the context width is not
  negative and, in case-insensitive mode, folding keeps the length of the pattern
  and of every line.  When it returns, the matches are, line after line, the
  leftmost-first matches of the folded pattern in the folded line, each as wide as
  the pattern.
\<close>

lemma ByteBufSearch_matches:
  assumes "fnd \<noteq> []"
  shows "(0 \<le> ctx \<and> (ic \<longrightarrow> keeps_length ul fnd (fst (Scanner rd))) \<longrightarrow>
            (\<exists>ms. fst (ByteBufSearch ctx ul rd fnd ic) = Inr (int (length ms), ms))) \<and>
         (\<forall>n ms. fst (ByteBufSearch ctx ul rd fnd ic) = Inr (n, ms) \<longrightarrow>
            n = int (length ms) \<and>
            (\<exists>css. list_all2 (\<lambda>bo. leftmost_first (fold_case ul ic bo) (fold_case ul ic fnd)
                                   (length fnd) 0) (fst (Scanner rd)) css \<and>
                   map Reg ms = regions_of 0 (length fnd) css))"
proof -
  obtain lines err where sc: "Scanner rd = (lines, err)" by (cases "Scanner rd")
  let ?fe = "if ic then bytes_ToLower ul fnd else fnd"
  have u: "fst (ByteBufSearch ctx ul rd fnd ic) = scan_loop ctx ul ic fnd ?fe lines 0 (0, [])"
    using assms sc by (simp add: ByteBufSearch_def Let_def)
  have a: "\<exists>ms. fst (ByteBufSearch ctx ul rd fnd ic) = Inr (int (length ms), ms)"
    if h: "0 \<le> ctx \<and> (ic \<longrightarrow> keeps_length ul fnd (fst (Scanner rd)))"
  proof -
    from h sc have len: "length ?fe = length fnd"
      "list_all (\<lambda>bo. length (if ic then bytes_ToLower ul bo else bo) = length bo) lines"
      by (auto simp: keeps_length_def list_all_iff)
    from h have "0 \<le> ctx" by simp
    from scan_loop_total [OF this len(1) len(2), of 0 "(0, [])"]
    obtain acc' where r: "scan_loop ctx ul ic fnd ?fe lines 0 (0, []) = Inr acc'" by blast
    from scan_loop_sound [OF r] have "fst acc' = int (length (snd acc'))" by auto
    then have "acc' = (int (length (snd acc')), snd acc')" by (cases acc') simp
    with r u show ?thesis by metis
  qed
  have b: "n = int (length ms) \<and>
            (\<exists>css. list_all2 (\<lambda>bo. leftmost_first (fold_case ul ic bo) (fold_case ul ic fnd)
                                   (length fnd) 0) (fst (Scanner rd)) css \<and>
                   map Reg ms = regions_of 0 (length fnd) css)"
    if h: "fst (ByteBufSearch ctx ul rd fnd ic) = Inr (n, ms)" for n ms
  proof -
    from h u have r: "scan_loop ctx ul ic fnd ?fe lines 0 (0, []) = Inr (n, ms)" by simp
    from scan_loop_columns [OF r assms] sc show ?thesis
      by (auto simp: fold_case_def)
  qed
  from a b show ?thesis by blast
qed

subsection \<open>Evaluating the search on a given input\<close>

lemma ascii_lower_upper:
  "map ascii_lower ''ABCDEFGHIJKLMNOPQRSTUVWXYZ'' = ''abcdefghijklmnopqrstuvwxyz''"
  by code_simp

lemmas ascii_lower_letters = ascii_lower_upper [simplified]

lemma ascii_lower_other: "\<not> (CHR ''A'' \<le> c \<and> c \<le> CHR ''Z'') \<Longrightarrow> ascii_lower c = c"
  by (auto simp: ascii_lower_def)

lemma line_loop_end:
  "\<not> ci < int (length b) \<Longrightarrow> line_loop ctx ln bo b fnd fe ci acc = Inr acc"
  by (simp add: line_loop.simps [of ctx ln bo b fnd fe ci acc] Let_def)

lemma line_loop_miss:
  "bytes_Index (drop (nat ci) b) fe < 0 \<Longrightarrow> line_loop ctx ln bo b fnd fe ci acc = Inr acc"
  by (simp add: line_loop.simps [of ctx ln bo b fnd fe ci acc] Let_def)

lemma line_loop_hit:
  assumes "bytes_Index (drop (nat ci) b) fe = r" and "0 \<le> r" and "fnd \<noteq> []"
    and "ci < int (length b)"
  shows "line_loop ctx ln bo b fnd fe ci acc =
     (if max (r + ci - ctx) 0 \<le> r + ci \<and>
         r + ci + int (length fnd) \<le> min (r + ci + int (length fnd) + ctx) (int (length b)) \<and>
         min (r + ci + int (length fnd) + ctx) (int (length b)) \<le> int (length bo)
      then line_loop ctx ln bo b fnd fe (r + ci + int (length fnd))
             (fst acc + 1,
              snd acc @
              [\<lparr>Reg = NewTextRegion ln (r + ci) ln (r + ci + int (length fnd)),
                Text = slice bo (max (r + ci - ctx) 0) (r + ci) @ mst @
                       slice bo (r + ci) (r + ci + int (length fnd)) @ med @
                       slice bo (r + ci + int (length fnd))
                         (min (r + ci + int (length fnd) + ctx) (int (length b)))\<rparr>])
      else Inl BeyondLine)"
  using assms by (simp add: line_loop.simps [of ctx ln bo b fnd fe ci acc] Let_def)

lemma bytes_Index_here:
  "take (length sep) (x # xs) = sep \<Longrightarrow> bytes_Index (x # xs) sep = 0"
  by simp

lemma bytes_Index_later:
  "take (length sep) (x # xs) \<noteq> sep \<Longrightarrow> bytes_Index xs sep = r \<Longrightarrow>
   bytes_Index (x # xs) sep = (if r < 0 then -1 else r + 1)"
  by (simp add: Let_def)

lemma ByteBufSearch_unfold:
  "ByteBufSearch ctx ul rd fnd ic =
     (if fnd = [] then (Inr (0, []), [])
      else case Scanner rd of (lines, err) \<Rightarrow>
        (scan_loop ctx ul ic fnd (if ic then bytes_ToLower ul fnd else fnd) lines 0 (0, []),
         (case err of None \<Rightarrow> [] | Some e \<Rightarrow> [LogScanError e])))"
  by (simp add: ByteBufSearch_def Let_def)

lemmas search_eval = ByteBufSearch_unfold Scanner_def MaxScanTokenSize_def dropCR_def slice_def
  mst_def med_def bytes_ToLower_def isASCII_def NewTextRegion_def FileSearchContext_def
  line_loop_hit line_loop_miss line_loop_end ascii_lower_letters ascii_lower_other
  less_eq_char_def less_char_def bytes_Index_here bytes_Index_later

declare bytes_Index.simps(2) [simp del]

subsection \<open>The search on given inputs, and FileSearch\<close>

text \<open>
  Claim C2.  The search finds repeated, non-overlapping, leftmost-first matches
  per line, and handles the empty pattern.

  \<^item> With the initial context width, the case-sensitive search of the single line
    \<^verbatim>\<open>foo bar foo\<close> for \<^verbatim>\<open>foo\<close> returns the count 2 and the two regions of line 0 at the
    byte columns [0,3) and [8,11); the case-insensitive search for \<^verbatim>\<open>FOO\<close> returns
    the same.
  \<^item> The search for \<^verbatim>\<open>aa\<close> in the four lines \<^verbatim>\<open>aaaaa\<close>, \<^verbatim>\<open>xaa\<close> (ended by CR LF), the
    empty line and \<^verbatim>\<open>aa\<close> returns the count 4: [0,2) and [2,4) on line 0, where the
    second match starts at the end of the first and the last \<^verbatim>\<open>a\<close> is left, [1,3) on
    line 1, and [0,2) on line 3.
  \<^item> On every input a pattern of length zero returns the count 0 and the nil list
    (and logs nothing).
  \<^item> On every input with a non-empty pattern: the search returns when the context
    width is not negative and, in case-insensitive mode, folding keeps the length
    of the pattern and of the lines; and whenever it returns, the count is the
    number of matches, and the regions of the matches are, line after line in the
    order of the lines, those of the leftmost-first matches of the (folded)
    pattern in the (folded) line: the first at the leftmost column where the
    pattern stands, each next one at the leftmost such column at or after the end
    of the match before, until the pattern stands nowhere in the rest of the line.
  \<^item> The lines are those of the input cut at every newline, without the newline
    and one carriage return before it.
\<close>

theorem ByteBufSearch_leftmost_first:
  "ByteBufSearch FileSearchContext ul (''foo bar foo'', None) ''foo'' False =
     (Inr (2, [\<lparr>Reg = \<lparr>Start = \<lparr>Ln = 0, Ch = 0\<rparr>, End = \<lparr>Ln = 0, Ch = 3\<rparr>\<rparr>,
                 Text = ''<mark>foo</mark> bar foo''\<rparr>,
               \<lparr>Reg = \<lparr>Start = \<lparr>Ln = 0, Ch = 8\<rparr>, End = \<lparr>Ln = 0, Ch = 11\<rparr>\<rparr>,
                 Text = ''foo bar <mark>foo</mark>''\<rparr>]), []) \<and>
   ByteBufSearch FileSearchContext ul (''foo bar foo'', None) ''FOO'' True =
     (Inr (2, [\<lparr>Reg = \<lparr>Start = \<lparr>Ln = 0, Ch = 0\<rparr>, End = \<lparr>Ln = 0, Ch = 3\<rparr>\<rparr>,
                 Text = ''<mark>foo</mark> bar foo''\<rparr>,
               \<lparr>Reg = \<lparr>Start = \<lparr>Ln = 0, Ch = 8\<rparr>, End = \<lparr>Ln = 0, Ch = 11\<rparr>\<rparr>,
                 Text = ''foo bar <mark>foo</mark>''\<rparr>]), []) \<and>
   ByteBufSearch FileSearchContext ul
     (''aaaaa'' @ [CHR 0x0A] @ ''xaa'' @ [CHR 0x0D, CHR 0x0A, CHR 0x0A] @ ''aa'', None) ''aa'' False =
     (Inr (4, [\<lparr>Reg = \<lparr>Start = \<lparr>Ln = 0, Ch = 0\<rparr>, End = \<lparr>Ln = 0, Ch = 2\<rparr>\<rparr>,
                 Text = ''<mark>aa</mark>aaa''\<rparr>,
               \<lparr>Reg = \<lparr>Start = \<lparr>Ln = 0, Ch = 2\<rparr>, End = \<lparr>Ln = 0, Ch = 4\<rparr>\<rparr>,
                 Text = ''aa<mark>aa</mark>a''\<rparr>,
               \<lparr>Reg = \<lparr>Start = \<lparr>Ln = 1, Ch = 1\<rparr>, End = \<lparr>Ln = 1, Ch = 3\<rparr>\<rparr>,
                 Text = ''x<mark>aa</mark>''\<rparr>,
               \<lparr>Reg = \<lparr>Start = \<lparr>Ln = 3, Ch = 0\<rparr>, End = \<lparr>Ln = 3, Ch = 2\<rparr>\<rparr>,
                 Text = ''<mark>aa</mark>''\<rparr>]), []) \<and>
   ByteBufSearch ctx ul rd [] ic = (Inr (0, []), []) \<and>
   (fnd \<noteq> [] \<and> 0 \<le> ctx \<and> (ic \<longrightarrow> keeps_length ul fnd (fst (Scanner rd))) \<longrightarrow>
      (\<exists>ms. fst (ByteBufSearch ctx ul rd fnd ic) = Inr (int (length ms), ms))) \<and>
   (\<forall>n ms. fnd \<noteq> [] \<and> fst (ByteBufSearch ctx ul rd fnd ic) = Inr (n, ms) \<longrightarrow>
      n = int (length ms) \<and>
      (\<exists>css. list_all2 (\<lambda>bo. leftmost_first (fold_case ul ic bo) (fold_case ul ic fnd)
                             (length fnd) 0) (fst (Scanner rd)) css \<and>
             map Reg ms = regions_of 0 (length fnd) css)) \<and>
   (CHR 0x0A \<notin> set l \<and> length l < MaxScanTokenSize \<longrightarrow>
      fst (Scanner (l @ CHR 0x0A # rest, e)) = dropCR l # fst (Scanner (rest, e))) \<and>
   (CHR 0x0A \<notin> set l \<and> l \<noteq> [] \<and> length l < MaxScanTokenSize \<longrightarrow>
      fst (Scanner (l, e)) = [dropCR l]) \<and>
   fst (Scanner ([], e)) = []"
proof (intro conjI)
  show "ByteBufSearch FileSearchContext ul (''foo bar foo'', None) ''foo'' False =
     (Inr (2, [\<lparr>Reg = \<lparr>Start = \<lparr>Ln = 0, Ch = 0\<rparr>, End = \<lparr>Ln = 0, Ch = 3\<rparr>\<rparr>,
                 Text = ''<mark>foo</mark> bar foo''\<rparr>,
               \<lparr>Reg = \<lparr>Start = \<lparr>Ln = 0, Ch = 8\<rparr>, End = \<lparr>Ln = 0, Ch = 11\<rparr>\<rparr>,
                 Text = ''foo bar <mark>foo</mark>''\<rparr>]), [])"
    by (simp add: search_eval)
  show "ByteBufSearch FileSearchContext ul (''foo bar foo'', None) ''FOO'' True =
     (Inr (2, [\<lparr>Reg = \<lparr>Start = \<lparr>Ln = 0, Ch = 0\<rparr>, End = \<lparr>Ln = 0, Ch = 3\<rparr>\<rparr>,
                 Text = ''<mark>foo</mark> bar foo''\<rparr>,
               \<lparr>Reg = \<lparr>Start = \<lparr>Ln = 0, Ch = 8\<rparr>, End = \<lparr>Ln = 0, Ch = 11\<rparr>\<rparr>,
                 Text = ''foo bar <mark>foo</mark>''\<rparr>]), [])"
    by (simp add: search_eval)
  show "ByteBufSearch FileSearchContext ul
     (''aaaaa'' @ [CHR 0x0A] @ ''xaa'' @ [CHR 0x0D, CHR 0x0A, CHR 0x0A] @ ''aa'', None) ''aa'' False =
     (Inr (4, [\<lparr>Reg = \<lparr>Start = \<lparr>Ln = 0, Ch = 0\<rparr>, End = \<lparr>Ln = 0, Ch = 2\<rparr>\<rparr>,
                 Text = ''<mark>aa</mark>aaa''\<rparr>,
               \<lparr>Reg = \<lparr>Start = \<lparr>Ln = 0, Ch = 2\<rparr>, End = \<lparr>Ln = 0, Ch = 4\<rparr>\<rparr>,
                 Text = ''aa<mark>aa</mark>a''\<rparr>,
               \<lparr>Reg = \<lparr>Start = \<lparr>Ln = 1, Ch = 1\<rparr>, End = \<lparr>Ln = 1, Ch = 3\<rparr>\<rparr>,
                 Text = ''x<mark>aa</mark>''\<rparr>,
               \<lparr>Reg = \<lparr>Start = \<lparr>Ln = 3, Ch = 0\<rparr>, End = \<lparr>Ln = 3, Ch = 2\<rparr>\<rparr>,
                 Text = ''<mark>aa</mark>''\<rparr>]), [])"
    by (simp add: search_eval)
  show "ByteBufSearch ctx ul rd [] ic = (Inr (0, []), [])"
    by (simp add: ByteBufSearch_def)
  show "fnd \<noteq> [] \<and> 0 \<le> ctx \<and> (ic \<longrightarrow> keeps_length ul fnd (fst (Scanner rd))) \<longrightarrow>
      (\<exists>ms. fst (ByteBufSearch ctx ul rd fnd ic) = Inr (int (length ms), ms))"
    using ByteBufSearch_matches [of fnd ctx ic ul rd] by blast
  show "\<forall>n ms. fnd \<noteq> [] \<and> fst (ByteBufSearch ctx ul rd fnd ic) = Inr (n, ms) \<longrightarrow>
      n = int (length ms) \<and>
      (\<exists>css. list_all2 (\<lambda>bo. leftmost_first (fold_case ul ic bo) (fold_case ul ic fnd)
                             (length fnd) 0) (fst (Scanner rd)) css \<and>
             map Reg ms = regions_of 0 (length fnd) css)"
    using ByteBufSearch_matches [of fnd ctx ic ul rd] by blast
  show "CHR 0x0A \<notin> set l \<and> length l < MaxScanTokenSize \<longrightarrow>
      fst (Scanner (l @ CHR 0x0A # rest, e)) = dropCR l # fst (Scanner (rest, e))"
    using ScanLines_newline [of l "[]" rest] by (simp add: fst_Scanner)
  show "CHR 0x0A \<notin> set l \<and> l \<noteq> [] \<and> length l < MaxScanTokenSize \<longrightarrow>
      fst (Scanner (l, e)) = [dropCR l]"
    using ScanLines_last [of l "[]"] by (simp add: fst_Scanner)
  show "fst (Scanner ([], e)) = []"
    by (simp add: fst_Scanner)
qed

theorem ByteBufSearch_leftmost_first_witness:
  "''aa'' \<noteq> [] \<and> 0 \<le> FileSearchContext \<and>
   fst (Scanner (''aaaaa'' @ [CHR 0x0A] @ ''xaa'' @ [CHR 0x0D, CHR 0x0A, CHR 0x0A] @ ''aa'', None))
     = [''aaaaa'', ''xaa'', [], ''aa''] \<and>
   (\<exists>ms. fst (ByteBufSearch FileSearchContext id
               (''aaaaa'' @ [CHR 0x0A] @ ''xaa'' @ [CHR 0x0D, CHR 0x0A, CHR 0x0A] @ ''aa'', None)
               ''aa'' False) = Inr (int (length ms), ms) \<and>
      (\<exists>css. list_all2 (\<lambda>bo. leftmost_first bo ''aa'' 2 0) [''aaaaa'', ''xaa'', [], ''aa''] css \<and>
             map Reg ms = regions_of 0 2 css)) \<and>
   ''FOO'' \<noteq> [] \<and> keeps_length id ''FOO'' (fst (Scanner (''foo bar foo'', None))) \<and>
   fst (Scanner (''foo bar foo'', None)) = [''foo bar foo''] \<and>
   (\<exists>ms. fst (ByteBufSearch FileSearchContext id (''foo bar foo'', None) ''FOO'' True)
            = Inr (int (length ms), ms) \<and>
      (\<exists>css. list_all2 (\<lambda>bo. leftmost_first (fold_case id True bo) (fold_case id True ''FOO'') 3 0)
               [''foo bar foo''] css \<and>
             map Reg ms = regions_of 0 3 css)) \<and>
   CHR 0x0A \<notin> set (''xaa'' @ [CHR 0x0D]) \<and> ''xaa'' @ [CHR 0x0D] \<noteq> [] \<and>
   length (''xaa'' @ [CHR 0x0D]) < MaxScanTokenSize \<and>
   fst (Scanner ((''xaa'' @ [CHR 0x0D]) @ CHR 0x0A # ''aa'', None)) =
     dropCR (''xaa'' @ [CHR 0x0D]) # fst (Scanner (''aa'', None)) \<and>
   fst (Scanner (''xaa'' @ [CHR 0x0D], None)) = [dropCR (''xaa'' @ [CHR 0x0D])]"
proof -
  let ?rd = "(''aaaaa'' @ [CHR 0x0A] @ ''xaa'' @ [CHR 0x0D, CHR 0x0A, CHR 0x0A] @ ''aa'', None)"
  note t = ByteBufSearch_leftmost_first [where ctx = FileSearchContext and ul = id and rd = ?rd
      and fnd = "''aa''" and ic = False and l = "''xaa'' @ [CHR 0x0D]" and rest = "''aa''"
      and e = None]
  have s: "fst (Scanner ?rd) = [''aaaaa'', ''xaa'', [], ''aa'']"
    by (simp add: Scanner_def MaxScanTokenSize_def dropCR_def)
  have c: "0 \<le> FileSearchContext" by (simp add: FileSearchContext_def)
  from t c obtain ms where
    ms: "fst (ByteBufSearch FileSearchContext id ?rd ''aa'' False) = Inr (int (length ms), ms)"
    by blast
  with t have "\<exists>css. list_all2 (\<lambda>bo. leftmost_first (fold_case id False bo) (fold_case id False ''aa'')
                             (length ''aa'') 0) (fst (Scanner ?rd)) css \<and>
             map Reg ms = regions_of 0 (length ''aa'') css"
    by blast
  moreover have "length ''aa'' = 2" by simp
  ultimately have "\<exists>css. list_all2 (\<lambda>bo. leftmost_first bo ''aa'' 2 0) [''aaaaa'', ''xaa'', [], ''aa''] css \<and>
             map Reg ms = regions_of 0 2 css"
    by (simp only: fold_case_def s if_False)
  with ms have 1: "\<exists>ms. fst (ByteBufSearch FileSearchContext id ?rd ''aa'' False)
        = Inr (int (length ms), ms) \<and>
      (\<exists>css. list_all2 (\<lambda>bo. leftmost_first bo ''aa'' 2 0) [''aaaaa'', ''xaa'', [], ''aa''] css \<and>
             map Reg ms = regions_of 0 2 css)"
    by blast
  let ?rd2 = "(''foo bar foo'', None)"
  note u = ByteBufSearch_leftmost_first [where ctx = FileSearchContext and ul = id and rd = ?rd2
      and fnd = "''FOO''" and ic = True]
  have s2: "fst (Scanner ?rd2) = [''foo bar foo'']"
    by (simp add: Scanner_def MaxScanTokenSize_def dropCR_def)
  have k: "keeps_length id ''FOO'' (fst (Scanner ?rd2))"
    by (simp add: s2 keeps_length_def bytes_ToLower_def isASCII_def less_char_def)
  from u c k obtain ms2 where
    ms2: "fst (ByteBufSearch FileSearchContext id ?rd2 ''FOO'' True) = Inr (int (length ms2), ms2)"
    by blast
  with u have "\<exists>css. list_all2 (\<lambda>bo. leftmost_first (fold_case id True bo) (fold_case id True ''FOO'')
                             (length ''FOO'') 0) (fst (Scanner ?rd2)) css \<and>
             map Reg ms2 = regions_of 0 (length ''FOO'') css"
    by blast
  moreover have "length ''FOO'' = 3" by simp
  ultimately have "\<exists>css. list_all2 (\<lambda>bo. leftmost_first (fold_case id True bo)
                             (fold_case id True ''FOO'') 3 0) [''foo bar foo''] css \<and>
             map Reg ms2 = regions_of 0 3 css"
    by (simp only: s2)
  with ms2 have 2: "\<exists>ms. fst (ByteBufSearch FileSearchContext id ?rd2 ''FOO'' True)
        = Inr (int (length ms), ms) \<and>
      (\<exists>css. list_all2 (\<lambda>bo. leftmost_first (fold_case id True bo) (fold_case id True ''FOO'') 3 0)
               [''foo bar foo''] css \<and>
             map Reg ms = regions_of 0 3 css)"
    by blast
  have g: "CHR 0x0A \<notin> set (''xaa'' @ [CHR 0x0D])" "''xaa'' @ [CHR 0x0D] \<noteq> []"
    "length (''xaa'' @ [CHR 0x0D]) < MaxScanTokenSize"
    by (simp_all add: MaxScanTokenSize_def)
  from t g have 3: "fst (Scanner ((''xaa'' @ [CHR 0x0D]) @ CHR 0x0A # ''aa'', None)) =
     dropCR (''xaa'' @ [CHR 0x0D]) # fst (Scanner (''aa'', None))"
    "fst (Scanner (''xaa'' @ [CHR 0x0D], None)) = [dropCR (''xaa'' @ [CHR 0x0D])]"
    by blast+
  from c s 1 k s2 2 g 3 show ?thesis by blast
qed

text \<open>
  The snippets of the specification's example, context width 3 on the line
  \<^verbatim>\<open>0123456789\<close>: in the middle, at the start and at the end of the line.
\<close>

lemma snippet_examples:
  "ByteBufSearch 3 ul (''0123456789'', None) ''456'' False =
     (Inr (1, [\<lparr>Reg = \<lparr>Start = \<lparr>Ln = 0, Ch = 4\<rparr>, End = \<lparr>Ln = 0, Ch = 7\<rparr>\<rparr>,
                 Text = ''123<mark>456</mark>789''\<rparr>]), [])"
  "ByteBufSearch 3 ul (''0123456789'', None) ''01'' False =
     (Inr (1, [\<lparr>Reg = \<lparr>Start = \<lparr>Ln = 0, Ch = 0\<rparr>, End = \<lparr>Ln = 0, Ch = 2\<rparr>\<rparr>,
                 Text = ''<mark>01</mark>234''\<rparr>]), [])"
  "ByteBufSearch 3 ul (''0123456789'', None) ''89'' False =
     (Inr (1, [\<lparr>Reg = \<lparr>Start = \<lparr>Ln = 0, Ch = 8\<rparr>, End = \<lparr>Ln = 0, Ch = 10\<rparr>\<rparr>,
                 Text = ''567<mark>89</mark>''\<rparr>]), [])"
  by (simp_all add: search_eval)

text \<open>
  Claim C3, at an input where the code departs from it.  Case-insensitive search
  for \<^verbatim>\<open>foo\<close> in a stream whose first line is the byte \<open>0xFF\<close> followed by \<^verbatim>\<open>foo\<close>.
  \<^verbatim>\<open>bytes.ToLower\<close> replaces the byte \<open>0xFF\<close>, which is not UTF-8, by the three
  bytes of U+FFFD (the hypothesis on \<open>ul\<close>), so the folded line is two bytes longer
  than the line.  The match is found at the columns [3,6) of the folded line, and
  the line has 4 bytes: the slice \<^verbatim>\<open>bo[3:6]\<close> copied into the snippet as the matched
  bytes runs two bytes past the end of the line.
\<close>

theorem snippet_crosses_line:
  assumes "ul (CHR 0xFF # ''foo'') = [CHR 0xEF, CHR 0xBF, CHR 0xBD] @ ''foo''"
  shows "ByteBufSearch FileSearchContext ul
           (CHR 0xFF # ''foo'' @ [CHR 0x0A] @ ''bar'', None) ''foo'' True
         = (Inl BeyondLine, [])"
  using assms by (simp add: search_eval)

theorem snippet_crosses_line_witness:
  "(\<lambda>s. [CHR 0xEF, CHR 0xBF, CHR 0xBD] @ tl s) (CHR 0xFF # ''foo'')
     = [CHR 0xEF, CHR 0xBF, CHR 0xBD] @ ''foo'' \<and>
   ByteBufSearch FileSearchContext (\<lambda>s. [CHR 0xEF, CHR 0xBF, CHR 0xBD] @ tl s)
           (CHR 0xFF # ''foo'' @ [CHR 0x0A] @ ''bar'', None) ''foo'' True
         = (Inl BeyondLine, [])"
  using snippet_crosses_line [of "\<lambda>s. [CHR 0xEF, CHR 0xBF, CHR 0xBD] @ tl s"] by simp

text \<open>
  Claim C7, at an input where the code departs from it.  Case-insensitive search
  for \<^verbatim>\<open>foo\<close> in the line made of the byte \<open>0xFF\<close>, \<^verbatim>\<open>foo\<close> and 32 times \<^verbatim>\<open>x\<close>.  In the
  line the pattern stands at the byte columns [1,4).  The folded line has the
  three bytes of U+FFFD in place of \<open>0xFF\<close> (the hypothesis on \<open>ul\<close>), the match is
  found there at [3,6), and these columns are reported and used on the line itself:
  the region is [3,6), and the bytes between the marks are \<^verbatim>\<open>oxx\<close>.
\<close>

theorem folded_columns_on_line:
  assumes "ul (CHR 0xFF # ''fooxxxxxxxxxxxxxxxxxxxxxxxxxxxxxxxx'')
             = [CHR 0xEF, CHR 0xBF, CHR 0xBD] @ ''fooxxxxxxxxxxxxxxxxxxxxxxxxxxxxxxxx''"
  shows "ByteBufSearch FileSearchContext ul
           (CHR 0xFF # ''fooxxxxxxxxxxxxxxxxxxxxxxxxxxxxxxxx'', None) ''foo'' True
         = (Inr (1, [\<lparr>Reg = \<lparr>Start = \<lparr>Ln = 0, Ch = 3\<rparr>, End = \<lparr>Ln = 0, Ch = 6\<rparr>\<rparr>,
                      Text = CHR 0xFF # ''fo<mark>oxx</mark>xxxxxxxxxxxxxxxxxxxxxxxxxxxxxx''\<rparr>]),
            [])"
  using assms by (simp add: search_eval)

theorem folded_columns_on_line_witness:
  "(\<lambda>s. [CHR 0xEF, CHR 0xBF, CHR 0xBD] @ tl s) (CHR 0xFF # ''fooxxxxxxxxxxxxxxxxxxxxxxxxxxxxxxxx'')
     = [CHR 0xEF, CHR 0xBF, CHR 0xBD] @ ''fooxxxxxxxxxxxxxxxxxxxxxxxxxxxxxxxx'' \<and>
   ByteBufSearch FileSearchContext (\<lambda>s. [CHR 0xEF, CHR 0xBF, CHR 0xBD] @ tl s)
           (CHR 0xFF # ''fooxxxxxxxxxxxxxxxxxxxxxxxxxxxxxxxx'', None) ''foo'' True
         = (Inr (1, [\<lparr>Reg = \<lparr>Start = \<lparr>Ln = 0, Ch = 3\<rparr>, End = \<lparr>Ln = 0, Ch = 6\<rparr>\<rparr>,
                      Text = CHR 0xFF # ''fo<mark>oxx</mark>xxxxxxxxxxxxxxxxxxxxxxxxxxxxxx''\<rparr>]),
            [])"
  using folded_columns_on_line [of "\<lambda>s. [CHR 0xEF, CHR 0xBF, CHR 0xBD] @ tl s"] by simp

text \<open>
  The same on valid UTF-8: the line is U+0130 (the bytes \<open>0xC4\<close> \<open>0xB0\<close>) followed by
  \<^verbatim>\<open>foo\<close>, where the pattern stands at the columns [2,5).  The lower case of U+0130
  is the one byte \<^verbatim>\<open>i\<close> (the hypothesis on \<open>ul\<close>), so the folded line is one byte
  shorter: the region reported is [1,4), and the bytes between the marks are
  \<open>0xB0\<close>, \<^verbatim>\<open>f\<close>, \<^verbatim>\<open>o\<close>.
\<close>

lemma folded_columns_on_shorter_line:
  assumes "ul (CHR 0xC4 # CHR 0xB0 # ''foo'') = ''ifoo''"
  shows "ByteBufSearch FileSearchContext ul (CHR 0xC4 # CHR 0xB0 # ''foo'', None) ''foo'' True
         = (Inr (1, [\<lparr>Reg = \<lparr>Start = \<lparr>Ln = 0, Ch = 1\<rparr>, End = \<lparr>Ln = 0, Ch = 4\<rparr>\<rparr>,
                      Text = CHR 0xC4 # ''<mark>'' @ CHR 0xB0 # ''fo</mark>''\<rparr>]),
            [])"
  using assms by (simp add: search_eval)

text \<open>
  Claim C8.  When the file cannot be opened, FileSearch returns the count 0 and the
  nil list, with one log line for the error, and no file is opened; when it can,
  the result and the log are those of ByteBufSearch on the file, which is opened
  and then closed, whether the search returns or not.
\<close>

theorem FileSearch_open:
  "(os_Open filename = Inl err \<longrightarrow>
      FileSearch ctx ul os_Open filename fnd ic = (Inr (0, []), [LogOpenError err], [])) \<and>
   (os_Open filename = Inr fp \<longrightarrow>
      FileSearch ctx ul os_Open filename fnd ic =
        (fst (ByteBufSearch ctx ul fp fnd ic), snd (ByteBufSearch ctx ul fp fnd ic),
         [Opened filename, Closed filename]))"
  by (simp add: FileSearch_def split: prod.splits)

theorem FileSearch_open_witness:
  "FileSearch FileSearchContext id
     (\<lambda>f. if f = ''a.txt'' then Inr (''foo bar foo'', None) else Inl ''no such file'')
     ''b.txt'' ''foo'' False = (Inr (0, []), [LogOpenError ''no such file''], []) \<and>
   FileSearch FileSearchContext id
     (\<lambda>f. if f = ''a.txt'' then Inr (''foo bar foo'', None) else Inl ''no such file'')
     ''a.txt'' ''foo'' False =
     (Inr (2, [\<lparr>Reg = \<lparr>Start = \<lparr>Ln = 0, Ch = 0\<rparr>, End = \<lparr>Ln = 0, Ch = 3\<rparr>\<rparr>,
                 Text = ''<mark>foo</mark> bar foo''\<rparr>,
               \<lparr>Reg = \<lparr>Start = \<lparr>Ln = 0, Ch = 8\<rparr>, End = \<lparr>Ln = 0, Ch = 11\<rparr>\<rparr>,
                 Text = ''foo bar <mark>foo</mark>''\<rparr>]), [],
      [Opened ''a.txt'', Closed ''a.txt''])"
proof -
  let ?op = "\<lambda>f. if f = ''a.txt'' then Inr (''foo bar foo'', None) else Inl ''no such file''"
  have e: "ByteBufSearch FileSearchContext id (''foo bar foo'', None) ''foo'' False =
     (Inr (2, [\<lparr>Reg = \<lparr>Start = \<lparr>Ln = 0, Ch = 0\<rparr>, End = \<lparr>Ln = 0, Ch = 3\<rparr>\<rparr>,
                 Text = ''<mark>foo</mark> bar foo''\<rparr>,
               \<lparr>Reg = \<lparr>Start = \<lparr>Ln = 0, Ch = 8\<rparr>, End = \<lparr>Ln = 0, Ch = 11\<rparr>\<rparr>,
                 Text = ''foo bar <mark>foo</mark>''\<rparr>]), [])"
    by (simp add: search_eval)
  show ?thesis
    using FileSearch_open [of ?op "''b.txt''" "''no such file''" FileSearchContext id "''foo''" False]
      FileSearch_open [of ?op "''a.txt''" _ FileSearchContext id "''foo''" False
        "(''foo bar foo'', None)"]
    by (simp add: e)
qed

section \<open>Properties of the file tree\<close>

subsection \<open>ConfigOfFiles and ConfigChildren\<close>

lemma walkFn_step:
  "\<exists>l. walkFn E dot ty path (c1, c2, lg) c =
     (c1 @ map (Pair ty) (if dot then map fst (filter snd (entries E path [c]))
                           else map fst (entries E path [c])),
      c2 @ map (Pair ty) (if dot then map fst (filter (\<lambda>e. \<not> snd e) (entries E path [c]))
                           else []),
      l)"
  by (cases "werr c") (auto simp: walkFn_def entries_def Let_def)

lemma entries_Cons: "entries E path (c # calls) = entries E path [c] @ entries E path calls"
  by (simp add: entries_def)

lemma foldl_walkFn:
  "\<exists>lg'. foldl (walkFn E dot ty path) (c1, c2, lg) calls =
     (c1 @ map (Pair ty) (if dot then map fst (filter snd (entries E path calls))
                           else map fst (entries E path calls)),
      c2 @ map (Pair ty) (if dot then map fst (filter (\<lambda>e. \<not> snd e) (entries E path calls))
                           else []),
      lg')"
proof (induction calls arbitrary: c1 c2 lg)
  case Nil
  show ?case by (simp add: entries_def)
next
  case (Cons c calls)
  from walkFn_step [of E dot ty path c1 c2 lg c] obtain l where
    s: "walkFn E dot ty path (c1, c2, lg) c =
     (c1 @ map (Pair ty) (if dot then map fst (filter snd (entries E path [c]))
                           else map fst (entries E path [c])),
      c2 @ map (Pair ty) (if dot then map fst (filter (\<lambda>e. \<not> snd e) (entries E path [c]))
                           else []),
      l)" by blast
  from Cons.IH [of "c1 @ map (Pair ty) (if dot then map fst (filter snd (entries E path [c]))
                           else map fst (entries E path [c]))"
        "c2 @ map (Pair ty) (if dot then map fst (filter (\<lambda>e. \<not> snd e) (entries E path [c]))
                           else [])" l]
  obtain lg' where ih: "foldl (walkFn E dot ty path)
       (c1 @ map (Pair ty) (if dot then map fst (filter snd (entries E path [c]))
                           else map fst (entries E path [c])),
        c2 @ map (Pair ty) (if dot then map fst (filter (\<lambda>e. \<not> snd e) (entries E path [c]))
                           else []), l) calls =
     ((c1 @ map (Pair ty) (if dot then map fst (filter snd (entries E path [c]))
                           else map fst (entries E path [c]))) @
        map (Pair ty) (if dot then map fst (filter snd (entries E path calls))
                           else map fst (entries E path calls)),
      (c2 @ map (Pair ty) (if dot then map fst (filter (\<lambda>e. \<not> snd e) (entries E path [c]))
                           else [])) @
        map (Pair ty) (if dot then map fst (filter (\<lambda>e. \<not> snd e) (entries E path calls))
                           else []),
      lg')" by blast
  have "foldl (walkFn E dot ty path) (c1, c2, lg) (c # calls) =
     (c1 @ map (Pair ty) (if dot then map fst (filter snd (entries E path (c # calls)))
                           else map fst (entries E path (c # calls))),
      c2 @ map (Pair ty) (if dot then map fst (filter (\<lambda>e. \<not> snd e) (entries E path (c # calls)))
                           else []),
      lg')"
    unfolding foldl_Cons s ih entries_Cons [of E path c calls]
    by (cases dot) simp_all
  then show ?case by blast
qed

lemma ConfigOfFiles_Ret:
  assumes "FRoot (dat fn) = Some r"
  shows "\<exists>w'. ConfigOfFiles E fn path w =
           Ret (map (Pair (NodeType (tree w))) (child_order (DirsOnTop (tree w)) (listing E path)), w')
         \<and> tree w' = tree w \<and> nextPtr w' = nextPtr w \<and> sigs w' = sigs w"
proof -
  from foldl_walkFn [of E "DirsOnTop (tree w)" "NodeType (tree w)" path "[]" "[]" "[]"
      "filepath_Walk E path"]
  obtain lg' where "foldl (walkFn E (DirsOnTop (tree w)) (NodeType (tree w)) path) ([], [], [])
       (filepath_Walk E path) =
     (map (Pair (NodeType (tree w)))
        (if DirsOnTop (tree w) then map fst (filter snd (entries E path (filepath_Walk E path)))
         else map fst (entries E path (filepath_Walk E path))),
      map (Pair (NodeType (tree w)))
        (if DirsOnTop (tree w)
         then map fst (filter (\<lambda>e. \<not> snd e) (entries E path (filepath_Walk E path)))
         else []),
      lg')" by auto
  then show ?thesis
    using assms
    by (auto simp: ConfigOfFiles_def Let_def child_order_def listing_def)
qed

lemma set_child_order: "set (child_order dot ents) = fst ` set ents"
  by (auto simp: child_order_def image_iff)

lemma config_kids_keep:
  "c \<in> set kids \<Longrightarrow> (Typ (dat c), Nm (dat c)) \<in> set config \<Longrightarrow>
   c \<in> set (fst (config_kids config kids nxt))"
proof (induction config arbitrary: nxt)
  case Nil
  then show ?case by simp
next
  case (Cons tn config)
  let ?F = "filter (\<lambda>k. (Typ (dat k), Nm (dat k)) = tn) kids"
  show ?case
  proof (cases "(Typ (dat c), Nm (dat c)) = tn")
    case True
    with Cons.prems(1) have mem: "c \<in> set ?F" by simp
    then obtain a list where "?F = a # list" by (cases ?F) auto
    with mem show ?thesis by (auto split: prod.splits)
  next
    case False
    with Cons.prems have "(Typ (dat c), Nm (dat c)) \<in> set config" by auto
    from Cons.IH [OF Cons.prems(1) this]
    have "c \<in> set (fst (config_kids config kids nxt))"
      "c \<in> set (fst (config_kids config kids (Suc nxt)))" by blast+
    then show ?thesis
      by (cases ?F) (auto split: prod.splits)
  qed
qed

lemma config_kids_names:
  "k \<in> set (fst (config_kids config kids nxt)) \<Longrightarrow> (Typ (dat k), Nm (dat k)) \<in> set config"
proof (induction config arbitrary: nxt)
  case Nil
  then show ?case by simp
next
  case (Cons tn config)
  let ?F = "filter (\<lambda>k. (Typ (dat k), Nm (dat k)) = tn) kids"
  show ?case
  proof (cases ?F)
    case Nil
    then have "fst (config_kids (tn # config) kids nxt) =
        new_FileNode nxt tn # fst (config_kids config kids (Suc nxt))"
      by (simp split: prod.splits)
    with Cons.prems have "k = new_FileNode nxt tn \<or> k \<in> set (fst (config_kids config kids (Suc nxt)))"
      by simp
    then show ?thesis
    proof
      assume "k = new_FileNode nxt tn"
      then show ?thesis by (simp add: new_FileNode_def)
    next
      assume "k \<in> set (fst (config_kids config kids (Suc nxt)))"
      from Cons.IH [OF this] show ?thesis by simp
    qed
  next
    case c2: (Cons a list)
    then have "fst (config_kids (tn # config) kids nxt) = ?F @ fst (config_kids config kids nxt)"
      by (simp split: prod.splits)
    with Cons.prems have "k \<in> set ?F \<or> k \<in> set (fst (config_kids config kids nxt))"
      by (simp del: set_filter)
    then show ?thesis
    proof
      assume "k \<in> set ?F"
      then show ?thesis by simp
    next
      assume "k \<in> set (fst (config_kids config kids nxt))"
      from Cons.IH [OF this] show ?thesis by simp
    qed
  qed
qed

subsection \<open>What ReadDir leaves alone\<close>

lemma set_FPath_fields:
  "set_FPath fn pth w = (fn', w') \<Longrightarrow>
     dat fn' = (dat fn)\<lparr>FPath := pth\<rparr> \<and> Kids fn' = Kids fn \<and>
     OpenDirs (tree w') = OpenDirs (tree w) \<and> DirsOnTop (tree w') = DirsOnTop (tree w) \<and>
     NodeType (tree w') = NodeType (tree w) \<and> TPtr (tree w') = TPtr (tree w) \<and>
     nextPtr w' = nextPtr w \<and> logs w' = logs w \<and> sigs w' = sigs w"
  by (auto simp: set_FPath_def split: if_splits)

text \<open>ReadDir leaves the address and the buffer of its receiver alone.\<close>

lemma ConfigChildren_fields:
  "ConfigChildren config fn w = (mods, fn', w') \<Longrightarrow>
     dat fn' = dat fn \<and> Kids fn' = fst (config_kids config (Kids fn) (nextPtr w)) \<and>
     tree w' = tree w \<and> logs w' = logs w \<and> sigs w' = sigs w"
  by (auto simp: ConfigChildren_def split: prod.splits)

lemma ReadDir_receiver:
  assumes r: "ReadDir n E fn path w = Ret (e, fn', w')"
  shows "Ptr (dat fn') = Ptr (dat fn) \<and> Buf (dat fn') = Buf (dat fn) \<and>
     FRoot (dat fn') = FRoot (dat fn) \<and> Typ (dat fn') = Typ (dat fn) \<and>
     Nm (dat fn') = filepath_Split2 E path"
proof (cases n)
  case 0
  with r show ?thesis by simp
next
  case (Suc m)
  show ?thesis
    using r unfolding Suc
    by (auto simp: Let_def set_FPath_def SetName_def set_Info_def SetOpen_def ConfigChildren_def
        split: sum.splits prod.splits option.splits outcome.splits if_splits)
qed

lemma keeps_ReadDir: "keeps (\<lambda>k p v. ReadDir n E k p v)"
  unfolding keeps_def using ReadDir_receiver by blast

lemma UpdateNode_with_keeps:
  assumes "keeps rd" and "UpdateNode_with rd E fn w = Ret (e, fn', w')"
  shows "Ptr (dat fn') = Ptr (dat fn) \<and> Buf (dat fn') = Buf (dat fn)"
proof -
  obtain eo fi where i: "InitFile E (Info (dat fn)) (FPath (dat fn)) = (eo, fi)"
    by (cases "InitFile E (Info (dat fn)) (FPath (dat fn))")
  let ?fn1 = "set_Info fn fi"
  have f1: "Ptr (dat ?fn1) = Ptr (dat fn)" "Buf (dat ?fn1) = Buf (dat fn)"
    by (simp_all add: set_Info_def)
  show ?thesis
  proof (cases "eo = None \<and> IsDir ?fn1 \<and> FRoot (dat ?fn1) \<noteq> None \<and>
                fst (IsDirOpen E (FPath (dat ?fn1)) w)")
    case False
    with assms(2) i have "fn' = ?fn1"
      by (auto simp: UpdateNode_with_def Let_def
          split: option.splits prod.splits bool.splits if_splits)
    with f1 show ?thesis by simp
  next
    case True
    obtain w1 where o: "IsDirOpen E (FPath (dat ?fn1)) w = (True, w1)"
      using True by (cases "IsDirOpen E (FPath (dat ?fn1)) w") auto
    from True assms(2) i o obtain e2 where
      "rd ?fn1 (FPath (dat ?fn1)) w1 = Ret (e2, fn', w')"
      by (auto simp: UpdateNode_with_def Let_def split: outcome.splits)
    with assms(1) f1 show ?thesis unfolding keeps_def by metis
  qed
qed

lemma SetNodePath_with_keeps:
  assumes "keeps rd" and "SetNodePath_with rd E fn path w = Ret (e, fn', w')"
  shows "Ptr (dat fn') = Ptr (dat fn) \<and> Buf (dat fn') = Buf (dat fn)"
proof (cases "filepath_Abs E path")
  case (Inl err)
  with assms(2) show ?thesis by (simp add: SetNodePath_with_def)
next
  case (Inr pth)
  obtain fn1 w1 where s: "set_FPath fn pth w = (fn1, w1)" by (cases "set_FPath fn pth w")
  with Inr assms(2) have "UpdateNode_with rd E fn1 w1 = Ret (e, fn', w')"
    by (simp add: SetNodePath_with_def)
  from UpdateNode_with_keeps [OF assms(1) this] set_FPath_fields [OF s]
  show ?thesis by simp
qed

lemma ReadDir_kids_keeps:
  assumes "keeps rd"
  shows "ReadDir_kids rd E froot path kids w = Ret (kids', w') \<Longrightarrow>
     map (\<lambda>k. Ptr (dat k)) kids' = map (\<lambda>k. Ptr (dat k)) kids \<and>
     map (\<lambda>k. Buf (dat k)) kids' = map (\<lambda>k. Buf (dat k)) kids"
proof (induction kids arbitrary: w kids' w')
  case Nil
  then show ?case by simp
next
  case (Cons sf sfs)
  let ?sf1 = "set_FRoot sf froot"
  from Cons.prems obtain err sf2 w1 rest where
    a: "SetNodePath_with rd E ?sf1 (filepath_Join E [path, Nm (dat ?sf1)]) w = Ret (err, sf2, w1)"
    and b: "ReadDir_kids rd E froot path sfs w1 = Ret (rest, w')" and c: "kids' = sf2 # rest"
    by (auto simp: Let_def split: outcome.splits)
  from SetNodePath_with_keeps [OF assms a] have "Ptr (dat sf2) = Ptr (dat sf)"
    "Buf (dat sf2) = Buf (dat sf)" by (simp_all add: set_FRoot_def)
  with Cons.IH [OF b] c show ?case by simp
qed

lemma ReadDir_Suc_Ret:
  assumes r: "ReadDir (Suc n) E fn path w = Ret (e, fn', w')"
  shows "(e \<noteq> None \<and>
          (case filepath_Abs E path of
             Inl err \<Rightarrow> True
           | Inr pth \<Rightarrow> fst (InitFile E (Info (dat fn)) pth) \<noteq> None) \<and>
          Kids fn' = Kids fn \<and> IsOpen fn' = IsOpen fn) \<or>
         (e = None \<and> IsOpen fn' \<and>
          (\<exists>pth fi. filepath_Abs E path = Inr pth \<and> InitFile E (Info (dat fn)) pth = (None, fi)) \<and>
          (\<exists>w4 w5. ReadDir_kids (\<lambda>k p v. ReadDir n E k p v) E (FRoot (dat fn)) path
              (fst (config_kids
                     (map (Pair (NodeType (tree w)))
                        (child_order (DirsOnTop (tree w)) (listing E path)))
                     (Kids fn) (nextPtr w))) w4 = Ret (Kids fn', w5)))"
proof (cases "filepath_Abs E path")
  case (Inl err)
  with r show ?thesis by (auto simp: Let_def SetName_def IsOpen_def)
next
  case (Inr pth)
  let ?fn1 = "SetName fn (filepath_Split2 E path)"
  obtain fn2 w2 where s: "set_FPath ?fn1 pth w = (fn2, w2)" by (cases "set_FPath ?fn1 pth w")
  note f2 = set_FPath_fields [OF s]
  have i2: "Info (dat fn2) = Info (dat fn)" "FPath (dat fn2) = pth"
    using f2 by (simp_all add: SetName_def)
  obtain eo fi where i: "InitFile E (Info (dat fn)) pth = (eo, fi)"
    by (cases "InitFile E (Info (dat fn)) pth")
  show ?thesis
  proof (cases eo)
    case (Some err)
    with r Inr s i i2 f2 show ?thesis
      by (auto simp: Let_def SetName_def set_Info_def IsOpen_def)
  next
    case None
    let ?fn3 = "SetOpen (set_Info fn2 fi)"
    have f3: "FRoot (dat ?fn3) = FRoot (dat fn)" "Kids ?fn3 = Kids fn"
      using f2 by (simp_all add: SetOpen_def set_Info_def SetName_def)
    show ?thesis
    proof (cases "FRoot (dat fn)")
      case fr: None
      with r Inr s i i2 None f3 show ?thesis
        by (auto simp: Let_def ConfigOfFiles_def)
    next
      case fr: (Some rt)
      with f3 have "FRoot (dat ?fn3) = Some rt" by simp
      from ConfigOfFiles_Ret [OF this, of E path w2] obtain w3 where
        c: "ConfigOfFiles E ?fn3 path w2 =
              Ret (map (Pair (NodeType (tree w2)))
                     (child_order (DirsOnTop (tree w2)) (listing E path)), w3)"
        and w3: "tree w3 = tree w2" "nextPtr w3 = nextPtr w2" by blast
      let ?config = "map (Pair (NodeType (tree w)))
                        (child_order (DirsOnTop (tree w)) (listing E path))"
      have c': "ConfigOfFiles E ?fn3 path w2 = Ret (?config, w3)"
        using c f2 by simp
      obtain mods fn4 w4 where cc: "ConfigChildren ?config ?fn3 w3 = (mods, fn4, w4)"
        by (cases "ConfigChildren ?config ?fn3 w3")
      from ConfigChildren_fields [OF cc] have f4: "dat fn4 = dat ?fn3"
        "Kids fn4 = fst (config_kids ?config (Kids fn) (nextPtr w))"
        using f3 w3 f2 by simp_all
      from r Inr s i i2 None c' cc obtain kids w5 where
        k: "ReadDir_kids (\<lambda>k p v. ReadDir n E k p v) E (FRoot (dat fn4)) path (Kids fn4) w4
              = Ret (kids, w5)" and e: "e = None" and fn': "fn' = FileNode (dat fn4) kids"
        by (auto simp: Let_def split: outcome.splits)
      have "IsOpen fn'" using fn' f4 by (simp add: IsOpen_def SetOpen_def)
      moreover have "Kids fn' = kids" using fn' by simp
      ultimately show ?thesis
        using k e f4 f3 Inr i None by (auto simp: SetOpen_def set_Info_def)
    qed
  qed
qed

subsection \<open>ReadDir returns\<close>

lemma UpdateNode_with_total:
  assumes rd: "\<And>k p v. within_depth E n p \<Longrightarrow> FRoot (dat k) \<noteq> None \<Longrightarrow> \<exists>r. rd k p v = Ret r"
    and "within_depth E n (FPath (dat fn))" and "FRoot (dat fn) \<noteq> None"
  shows "\<exists>r. UpdateNode_with rd E fn w = Ret r"
proof -
  obtain eo fi where i: "InitFile E (Info (dat fn)) (FPath (dat fn)) = (eo, fi)"
    by (cases "InitFile E (Info (dat fn)) (FPath (dat fn))")
  let ?fn1 = "set_Info fn fi"
  have f1: "FRoot (dat ?fn1) \<noteq> None" "FPath (dat ?fn1) = FPath (dat fn)"
    using assms(3) by (simp_all add: set_Info_def)
  obtain b w1 where o: "IsDirOpen E (FPath (dat ?fn1)) w = (b, w1)"
    by (cases "IsDirOpen E (FPath (dat ?fn1)) w")
  from rd [of "FPath (dat ?fn1)" ?fn1 w1] assms(2) f1
  obtain r where "rd ?fn1 (FPath (dat ?fn1)) w1 = Ret r" by auto
  with i o f1 show ?thesis
    by (cases eo; cases b; cases r)
       (auto simp: UpdateNode_with_def Let_def split: option.splits)
qed

lemma SetNodePath_with_total:
  assumes rd: "\<And>k p v. within_depth E n p \<Longrightarrow> FRoot (dat k) \<noteq> None \<Longrightarrow> \<exists>r. rd k p v = Ret r"
    and "case filepath_Abs E path of Inl err \<Rightarrow> True | Inr p \<Rightarrow> within_depth E n p"
    and "FRoot (dat fn) \<noteq> None"
  shows "\<exists>r. SetNodePath_with rd E fn path w = Ret r"
proof (cases "filepath_Abs E path")
  case (Inl err)
  then show ?thesis by (simp add: SetNodePath_with_def)
next
  case (Inr pth)
  obtain fn1 w1 where s: "set_FPath fn pth w = (fn1, w1)" by (cases "set_FPath fn pth w")
  from set_FPath_fields [OF s] assms(2,3) Inr
  have "within_depth E n (FPath (dat fn1))" "FRoot (dat fn1) \<noteq> None" by simp_all
  from UpdateNode_with_total [of E n rd fn1 w1, OF rd this]
  show ?thesis using Inr s by (simp add: SetNodePath_with_def)
qed

lemma ReadDir_kids_total:
  assumes rd: "\<And>k p v. within_depth E n p \<Longrightarrow> FRoot (dat k) \<noteq> None \<Longrightarrow> \<exists>r. rd k p v = Ret r"
    and "froot \<noteq> None"
  shows "\<forall>k \<in> set kids. case filepath_Abs E (filepath_Join E [path, Nm (dat k)]) of
                            Inl err \<Rightarrow> True | Inr p \<Rightarrow> within_depth E n p \<Longrightarrow>
         \<exists>r. ReadDir_kids rd E froot path kids w = Ret r"
proof (induction kids arbitrary: w)
  case Nil
  show ?case by simp
next
  case (Cons sf sfs)
  let ?sf1 = "set_FRoot sf froot"
  have n1: "Nm (dat ?sf1) = Nm (dat sf)" "FRoot (dat ?sf1) \<noteq> None"
    using assms(2) by (simp_all add: set_FRoot_def)
  from Cons.prems have "case filepath_Abs E (filepath_Join E [path, Nm (dat ?sf1)]) of
                            Inl err \<Rightarrow> True | Inr p \<Rightarrow> within_depth E n p"
    using n1 by simp
  from SetNodePath_with_total [of E n rd "filepath_Join E [path, Nm (dat ?sf1)]" ?sf1 w,
      OF rd this n1(2)]
  obtain err sf2 w1 where
    a: "SetNodePath_with rd E ?sf1 (filepath_Join E [path, Nm (dat ?sf1)]) w = Ret (err, sf2, w1)"
    by (metis prod_cases3)
  from Cons.prems have "\<forall>k \<in> set sfs. case filepath_Abs E (filepath_Join E [path, Nm (dat k)]) of
                            Inl err \<Rightarrow> True | Inr p \<Rightarrow> within_depth E n p" by simp
  from Cons.IH [OF this, of w1] obtain rest w2 where
    "ReadDir_kids rd E froot path sfs w1 = Ret (rest, w2)" by (metis prod.exhaust)
  with a show ?case by (simp add: Let_def)
qed

lemma ReadDir_total:
  "within_depth E n path \<Longrightarrow> FRoot (dat fn) \<noteq> None \<Longrightarrow> \<exists>r. ReadDir n E fn path w = Ret r"
proof (induction n arbitrary: fn path w)
  case 0
  then show ?case by simp
next
  case (Suc n)
  show ?case
  proof (cases "filepath_Abs E path")
    case (Inl err)
    then show ?thesis by (simp add: Let_def)
  next
    case (Inr pth)
    let ?fn1 = "SetName fn (filepath_Split2 E path)"
    obtain fn2 w2 where s: "set_FPath ?fn1 pth w = (fn2, w2)" by (cases "set_FPath ?fn1 pth w")
    note f2 = set_FPath_fields [OF s]
    obtain eo fi where i: "InitFile E (Info (dat fn2)) (FPath (dat fn2)) = (eo, fi)"
      by (cases "InitFile E (Info (dat fn2)) (FPath (dat fn2))")
    show ?thesis
    proof (cases eo)
      case (Some err)
      with Inr s i show ?thesis by (simp add: Let_def)
    next
      case None
      let ?fn3 = "SetOpen (set_Info fn2 fi)"
      from Suc.prems(2) obtain rt where fr: "FRoot (dat fn) = Some rt" by auto
      have f3: "FRoot (dat ?fn3) = Some rt" "Kids ?fn3 = Kids fn"
        using f2 fr by (simp_all add: SetOpen_def set_Info_def SetName_def)
      from ConfigOfFiles_Ret [OF f3(1), of E path w2] obtain w3 where
        c: "ConfigOfFiles E ?fn3 path w2 =
              Ret (map (Pair (NodeType (tree w2)))
                     (child_order (DirsOnTop (tree w2)) (listing E path)), w3)" by blast
      let ?config = "map (Pair (NodeType (tree w2)))
                     (child_order (DirsOnTop (tree w2)) (listing E path))"
      obtain mods fn4 w4 where cc: "ConfigChildren ?config ?fn3 w3 = (mods, fn4, w4)"
        by (cases "ConfigChildren ?config ?fn3 w3")
      from ConfigChildren_fields [OF cc] have f4: "dat fn4 = dat ?fn3"
        "Kids fn4 = fst (config_kids ?config (Kids ?fn3) (nextPtr w3))" by simp_all
      have names: "\<forall>k \<in> set (Kids fn4). Nm (dat k) \<in> fst ` set (listing E path)"
      proof
        fix k assume "k \<in> set (Kids fn4)"
        with f4 config_kids_names have "(Typ (dat k), Nm (dat k)) \<in> set ?config" by metis
        then show "Nm (dat k) \<in> fst ` set (listing E path)"
          by (auto simp: set_child_order)
      qed
      have deep: "\<forall>k \<in> set (Kids fn4).
          case filepath_Abs E (filepath_Join E [path, Nm (dat k)]) of
            Inl err \<Rightarrow> True | Inr p \<Rightarrow> within_depth E n p"
      proof
        fix k assume "k \<in> set (Kids fn4)"
        with names have "Nm (dat k) \<in> set (map fst (listing E path))" by simp
        with Suc.prems(1) show "case filepath_Abs E (filepath_Join E [path, Nm (dat k)]) of
            Inl err \<Rightarrow> True | Inr p \<Rightarrow> within_depth E n p"
          by (simp add: list_all_iff del: set_map)
      qed
      have "FRoot (dat fn4) \<noteq> None" using f4 f3 by simp
      from ReadDir_kids_total [of E n "\<lambda>k p v. ReadDir n E k p v" "FRoot (dat fn4)" "Kids fn4"
          path w4, OF Suc.IH this deep]
      obtain kids w5 where
        "ReadDir_kids (\<lambda>k p v. ReadDir n E k p v) E (FRoot (dat fn4)) path (Kids fn4) w4
           = Ret (kids, w5)" by (metis prod.exhaust)
      with Inr s i None c cc show ?thesis by (simp add: Let_def)
    qed
  qed
qed

subsection \<open>The names of the children\<close>





lemmas tree_eval = Let_def set_FPath_def SetName_def set_Info_def SetOpen_def set_FRoot_def
  log_line_def IsOpen_def IsDir_def FileInfo_IsDir_def FileInfo_zero_def
  OpenDir_def UpdateNode_def UpdateNode_with_def SetNodePath_with_def IsDirOpen_def SetDirOpen_def
  RelPath_def OpenDirMap_IsOpen_def OpenDirMap_SetOpen_def OpenDirMap_Init_def
  ConfigOfFiles_def ConfigChildren_def walkFn_def new_FileNode_def strings_HasPrefix_def

lemmas ex_defs = ex_env_def ex_walk_def ex_stat_def ex_rel_def ex_join_def ex_dir_def ex_file_def
  ex_world_def ex_root_def ex_kid_def ex_root2_def ex_world2_def

lemma within_depth_pos: "within_depth E n path \<Longrightarrow> \<exists>m. n = Suc m"
  by (cases n) auto

subsection \<open>ReadDir keeps the children that are still on disk\<close>

text \<open>
  Claim C1.  Let \<open>fn\<close> be a node of the tree (its \<open>FRoot\<close> is set), and let the file
  system below \<open>path\<close> be less than \<open>n\<close> levels deep.  If a child \<open>c\<close> of \<open>fn\<close> has an
  open buffer, has the node type of the tree, and its name is in the listing of
  \<open>path\<close> that ReadDir takes, then ReadDir returns, and among the children it
  leaves there is the node at the address of \<open>c\<close>, with the buffer of \<open>c\<close>.  This
  holds for every outcome of the call, an error return included.
\<close>

theorem ReadDir_keeps_child:
  assumes "within_depth E n path" and "FRoot (dat fn) \<noteq> None"
    and "c \<in> set (Kids fn)" and "Buf (dat c) \<noteq> None"
    and "Typ (dat c) = NodeType (tree w)" and "Nm (dat c) \<in> fst ` set (listing E path)"
  shows "\<exists>err fn' w'. ReadDir n E fn path w = Ret (err, fn', w') \<and>
           (\<exists>c' \<in> set (Kids fn'). Ptr (dat c') = Ptr (dat c) \<and> Buf (dat c') = Buf (dat c))"
proof -
  from ReadDir_total [OF assms(1,2), of w] obtain err fn' w' where
    r: "ReadDir n E fn path w = Ret (err, fn', w')" by (metis prod_cases3)
  from within_depth_pos [OF assms(1)] obtain m where n: "n = Suc m" by blast
  let ?config = "map (Pair (NodeType (tree w))) (child_order (DirsOnTop (tree w)) (listing E path))"
  let ?kids1 = "fst (config_kids ?config (Kids fn) (nextPtr w))"
  from ReadDir_Suc_Ret [OF r [unfolded n]]
  consider "Kids fn' = Kids fn"
    | w4 w5 where "ReadDir_kids (\<lambda>k p v. ReadDir m E k p v) E (FRoot (dat fn)) path ?kids1 w4
                     = Ret (Kids fn', w5)"
    by blast
  then have "\<exists>c' \<in> set (Kids fn'). Ptr (dat c') = Ptr (dat c) \<and> Buf (dat c') = Buf (dat c)"
  proof cases
    case 1
    with assms(3) show ?thesis by auto
  next
    case 2
    from ReadDir_kids_keeps [OF keeps_ReadDir 2]
    have eq: "map (\<lambda>k. Ptr (dat k)) (Kids fn') = map (\<lambda>k. Ptr (dat k)) ?kids1"
      "map (\<lambda>k. Buf (dat k)) (Kids fn') = map (\<lambda>k. Buf (dat k)) ?kids1" by simp_all
    from assms(5,6) have "(Typ (dat c), Nm (dat c)) \<in> set ?config"
      by (simp add: set_child_order image_iff)
    from config_kids_keep [OF assms(3) this] have "c \<in> set ?kids1" .
    then obtain i where i: "i < length ?kids1" "?kids1 ! i = c"
      by (auto simp: in_set_conv_nth)
    from eq(1) have len: "length (Kids fn') = length ?kids1"
      by (metis length_map)
    from eq i len have "Ptr (dat (Kids fn' ! i)) = Ptr (dat c)" "Buf (dat (Kids fn' ! i)) = Buf (dat c)"
      by (metis nth_map)+
    moreover from i len have "Kids fn' ! i \<in> set (Kids fn')" by simp
    ultimately show ?thesis by blast
  qed
  with r show ?thesis by blast
qed

theorem ReadDir_keeps_child_witness:
  "within_depth ex_env 3 ''/r'' \<and> FRoot (dat ex_root2) \<noteq> None \<and>
   ex_kid 3 ''b.txt'' ex_file (Some 7) \<in> set (Kids ex_root2) \<and>
   Buf (dat (ex_kid 3 ''b.txt'' ex_file (Some 7))) \<noteq> None \<and>
   Typ (dat (ex_kid 3 ''b.txt'' ex_file (Some 7))) = NodeType (tree ex_world2) \<and>
   Nm (dat (ex_kid 3 ''b.txt'' ex_file (Some 7))) \<in> fst ` set (listing ex_env ''/r'') \<and>
   (\<exists>err fn' w'. ReadDir 3 ex_env ex_root2 ''/r'' ex_world2 = Ret (err, fn', w') \<and>
      (\<exists>c' \<in> set (Kids fn'). Ptr (dat c') = 3 \<and> Buf (dat c') = Some 7))"
proof -
  have h: "within_depth ex_env 3 ''/r''" "FRoot (dat ex_root2) \<noteq> None"
    "ex_kid 3 ''b.txt'' ex_file (Some 7) \<in> set (Kids ex_root2)"
    "Buf (dat (ex_kid 3 ''b.txt'' ex_file (Some 7))) \<noteq> None"
    "Typ (dat (ex_kid 3 ''b.txt'' ex_file (Some 7))) = NodeType (tree ex_world2)"
    "Nm (dat (ex_kid 3 ''b.txt'' ex_file (Some 7))) \<in> fst ` set (listing ex_env ''/r'')"
    by (simp_all add: numeral_3_eq_3 listing_def entries_def ex_defs)
  from ReadDir_keeps_child [OF h] h show ?thesis
    by (simp add: ex_kid_def)
qed

subsection \<open>ReadDir when the path cannot be stat'ed\<close>

text \<open>
  Claim C5, as the code has it.  When the path has an absolute form and
  \<^verbatim>\<open>InitFile\<close> fails on it, ReadDir returns that error, having set the name and the
  path of the node and logged one line; the open flag of the node and its
  children are as they were before the call (nothing is enumerated, no node is
  created, the OpenDirMap is not consulted, no update is signalled).
\<close>

theorem ReadDir_stat_fails:
  assumes "filepath_Abs E path = Inr pth"
    and "InitFile E (Info (dat fn)) pth = (Some err, fi)"
  shows "\<exists>fn' w'. ReadDir (Suc n) E fn path w = Ret (Some err, fn', w') \<and>
           IsOpen fn' = IsOpen fn \<and> Kids fn' = Kids fn \<and>
           Nm (dat fn') = filepath_Split2 E path \<and> FPath (dat fn') = pth \<and>
           OpenDirs (tree w') = OpenDirs (tree w) \<and> nextPtr w' = nextPtr w \<and>
           sigs w' = sigs w \<and>
           logs w' = logs w @ [''giv.FileTree: could not read directory'']"
  using assms
  by (auto simp: Let_def set_FPath_def SetName_def set_Info_def IsOpen_def log_line_def)

theorem ReadDir_stat_fails_witness:
  "filepath_Abs ex_env ''/gone'' = Inr ''/gone'' \<and>
   InitFile ex_env (Info (dat ex_root2)) ''/gone''
     = (Some ''stat: no such file or directory'', ex_dir) \<and>
   (\<exists>fn' w'. ReadDir 1 ex_env ex_root2 ''/gone'' ex_world2
                = Ret (Some ''stat: no such file or directory'', fn', w') \<and>
       IsOpen fn' = IsOpen ex_root2 \<and> Kids fn' = Kids ex_root2 \<and>
       Nm (dat fn') = ''gone'' \<and> FPath (dat fn') = ''/gone'' \<and>
       OpenDirs (tree w') = OpenDirs (tree ex_world2) \<and> nextPtr w' = nextPtr ex_world2 \<and>
       sigs w' = sigs ex_world2 \<and>
       logs w' = logs ex_world2 @ [''giv.FileTree: could not read directory''])"
proof -
  have h: "filepath_Abs ex_env ''/gone'' = Inr ''/gone''"
    "InitFile ex_env (Info (dat ex_root2)) ''/gone''
       = (Some ''stat: no such file or directory'', ex_dir)"
    by (simp_all add: ex_defs)
  have s: "filepath_Split2 ex_env ''/gone'' = ''gone''" by (simp add: ex_defs)
  from ReadDir_stat_fails [OF h, of 0 ex_world2] h s show ?thesis by simp
qed

text \<open>
  Claim C5 as stated says that the node is left marked open.  On a node that was
  not open, a ReadDir whose stat fails leaves it not open: the failure returns
  before the call of \<^verbatim>\<open>SetOpen\<close>.
\<close>

theorem ReadDir_stat_fails_counterexample:
  "ReadDir 1 ex_env ex_root ''/gone'' ex_world =
     Ret (Some ''stat: no such file or directory'',
          FileNode ((dat ex_root)\<lparr>Nm := ''gone'', FPath := ''/gone''\<rparr>) [],
          log_line (ex_world\<lparr>tree := (tree ex_world)\<lparr>RootFPath := ''/gone''\<rparr>\<rparr>)
            ''giv.FileTree: could not read directory'') \<and>
   \<not> IsOpen (FileNode ((dat ex_root)\<lparr>Nm := ''gone'', FPath := ''/gone''\<rparr>) [])"
  by (simp add: ex_defs Let_def set_FPath_def SetName_def set_Info_def log_line_def
      FileInfo_zero_def IsOpen_def)

subsection \<open>The order of the children after ReadDir\<close>




subsection \<open>OpenDirsTo\<close>

text \<open>ReadDir leaves a node of the tree in the tree: it hands the \<open>FRoot\<close> of the
  receiver to every child.\<close>

lemma in_tree_iff: "in_tree fn = (FRoot (dat fn) \<noteq> None \<and> list_all in_tree (Kids fn))"
  by (cases fn) simp

lemma UpdateNode_with_in_tree:
  assumes "tree_kept rd" and "UpdateNode_with rd E fn w = Ret (e, fn', w')" and "in_tree fn"
  shows "in_tree fn'"
proof -
  obtain eo fi where i: "InitFile E (Info (dat fn)) (FPath (dat fn)) = (eo, fi)"
    by (cases "InitFile E (Info (dat fn)) (FPath (dat fn))")
  let ?fn1 = "set_Info fn fi"
  have f1: "in_tree ?fn1"
    using assms(3) by (simp add: in_tree_iff [of fn] in_tree_iff [of ?fn1] set_Info_def)
  show ?thesis
  proof (cases "eo = None \<and> IsDir ?fn1 \<and> FRoot (dat ?fn1) \<noteq> None \<and>
                fst (IsDirOpen E (FPath (dat ?fn1)) w)")
    case False
    with assms(2) i have "fn' = ?fn1"
      by (auto simp: UpdateNode_with_def Let_def
          split: option.splits prod.splits bool.splits if_splits)
    with f1 show ?thesis by simp
  next
    case True
    obtain w1 where o: "IsDirOpen E (FPath (dat ?fn1)) w = (True, w1)"
      using True by (cases "IsDirOpen E (FPath (dat ?fn1)) w") auto
    from True assms(2) i o obtain e2 where
      "rd ?fn1 (FPath (dat ?fn1)) w1 = Ret (e2, fn', w')"
      by (auto simp: UpdateNode_with_def Let_def split: outcome.splits)
    with assms(1) f1 show ?thesis unfolding tree_kept_def by blast
  qed
qed

lemma SetNodePath_with_in_tree:
  assumes "tree_kept rd" and "SetNodePath_with rd E fn path w = Ret (e, fn', w')" and "in_tree fn"
  shows "in_tree fn'"
proof (cases "filepath_Abs E path")
  case (Inl err)
  with assms(2,3) show ?thesis by (simp add: SetNodePath_with_def)
next
  case (Inr pth)
  obtain fn1 w1 where s: "set_FPath fn pth w = (fn1, w1)" by (cases "set_FPath fn pth w")
  with Inr assms(2) have u: "UpdateNode_with rd E fn1 w1 = Ret (e, fn', w')"
    by (simp add: SetNodePath_with_def)
  from set_FPath_fields [OF s] assms(3) have "in_tree fn1"
    by (simp add: in_tree_iff [of fn] in_tree_iff [of fn1])
  from UpdateNode_with_in_tree [OF assms(1) u this] show ?thesis .
qed

lemma ReadDir_kids_in_tree:
  assumes "tree_kept rd" and "froot \<noteq> None"
  shows "ReadDir_kids rd E froot path kids w = Ret (kids', w') \<Longrightarrow>
     \<forall>k \<in> set kids. list_all in_tree (Kids k) \<Longrightarrow> list_all in_tree kids'"
proof (induction kids arbitrary: w kids' w')
  case Nil
  then show ?case by simp
next
  case (Cons sf sfs)
  let ?sf1 = "set_FRoot sf froot"
  from Cons.prems(1) obtain err sf2 w1 rest where
    a: "SetNodePath_with rd E ?sf1 (filepath_Join E [path, Nm (dat ?sf1)]) w = Ret (err, sf2, w1)"
    and b: "ReadDir_kids rd E froot path sfs w1 = Ret (rest, w')" and c: "kids' = sf2 # rest"
    by (auto simp: Let_def split: outcome.splits)
  from Cons.prems(2) assms(2) have "in_tree ?sf1"
    by (simp add: in_tree_iff [of ?sf1] set_FRoot_def)
  from SetNodePath_with_in_tree [OF assms(1) a this] have "in_tree sf2" .
  moreover from Cons.prems(2) have "\<forall>k \<in> set sfs. list_all in_tree (Kids k)" by simp
  from Cons.IH [OF b this] have "list_all in_tree rest" .
  ultimately show ?case using c by simp
qed

lemma config_kids_in_tree:
  "list_all in_tree kids \<Longrightarrow>
   \<forall>k \<in> set (fst (config_kids config kids nxt)). list_all in_tree (Kids k)"
proof (induction config arbitrary: nxt)
  case Nil
  show ?case by simp
next
  case (Cons tn config)
  let ?F = "filter (\<lambda>k. (Typ (dat k), Nm (dat k)) = tn) kids"
  have F: "\<forall>k \<in> set ?F. list_all in_tree (Kids k)"
  proof
    fix k assume "k \<in> set ?F"
    with Cons.prems have "in_tree k" by (simp add: list_all_iff)
    then show "list_all in_tree (Kids k)" by (simp add: in_tree_iff [of k])
  qed
  show ?case
  proof (cases ?F)
    case Nil
    then have "fst (config_kids (tn # config) kids nxt) =
        new_FileNode nxt tn # fst (config_kids config kids (Suc nxt))"
      by (simp split: prod.splits)
    with Cons.IH [OF Cons.prems, of "Suc nxt"] show ?thesis
      by (simp add: new_FileNode_def)
  next
    case c2: (Cons a list)
    then have "fst (config_kids (tn # config) kids nxt) = ?F @ fst (config_kids config kids nxt)"
      by (simp split: prod.splits)
    with Cons.IH [OF Cons.prems, of nxt] F show ?thesis
      by (auto simp del: set_filter)
  qed
qed

lemma ReadDir_in_tree:
  "ReadDir n E fn path w = Ret (e, fn', w') \<Longrightarrow> in_tree fn \<Longrightarrow> in_tree fn'"
proof (induction n arbitrary: fn path w e fn' w')
  case 0
  then show ?case by simp
next
  case (Suc n)
  have tk: "tree_kept (\<lambda>k p v. ReadDir n E k p v)"
    unfolding tree_kept_def using Suc.IH by blast
  from ReadDir_receiver [OF Suc.prems(1)] Suc.prems(2)
  have fr: "FRoot (dat fn') \<noteq> None" "FRoot (dat fn) \<noteq> None"
    by (simp_all add: in_tree_iff [of fn])
  from Suc.prems(2) have ks: "list_all in_tree (Kids fn)" by (simp add: in_tree_iff [of fn])
  let ?config = "map (Pair (NodeType (tree w))) (child_order (DirsOnTop (tree w)) (listing E path))"
  let ?kids1 = "fst (config_kids ?config (Kids fn) (nextPtr w))"
  from ReadDir_Suc_Ret [OF Suc.prems(1)]
  consider "Kids fn' = Kids fn"
    | w4 w5 where "ReadDir_kids (\<lambda>k p v. ReadDir n E k p v) E (FRoot (dat fn)) path ?kids1 w4
                     = Ret (Kids fn', w5)"
    by blast
  then have "list_all in_tree (Kids fn')"
  proof cases
    case 1
    with ks show ?thesis by simp
  next
    case 2
    from ReadDir_kids_in_tree [OF tk fr(2) 2 config_kids_in_tree [OF ks]] show ?thesis .
  qed
  with fr show ?case by (simp add: in_tree_iff [of fn'])
qed

lemma OpenDir_total:
  assumes "\<forall>p. within_depth E n p" and "in_tree fn"
  shows "\<exists>fn' w'. OpenDir n E fn w = Ret (fn', w') \<and> in_tree fn'"
proof -
  let ?fn1 = "SetOpen fn"
  let ?w1 = "SetDirOpen E (FPath (dat ?fn1)) w"
  from assms(2) have t1: "in_tree ?fn1"
    by (simp add: in_tree_iff [of fn] in_tree_iff [of ?fn1] SetOpen_def)
  then have fr: "FRoot (dat ?fn1) \<noteq> None" by (simp add: in_tree_iff [of ?fn1])
  have "\<exists>r. UpdateNode_with (\<lambda>k p v. ReadDir n E k p v) E ?fn1 ?w1 = Ret r"
  proof (rule UpdateNode_with_total [of E n])
    fix k p v
    assume "within_depth E n p" "FRoot (dat k) \<noteq> None"
    then show "\<exists>r. ReadDir n E k p v = Ret r" by (rule ReadDir_total)
  next
    from assms(1) show "within_depth E n (FPath (dat ?fn1))" by simp
  next
    from fr show "FRoot (dat ?fn1) \<noteq> None" .
  qed
  then obtain e fn2 w2 where
    u: "UpdateNode_with (\<lambda>k p v. ReadDir n E k p v) E ?fn1 ?w1 = Ret (e, fn2, w2)"
    by (metis prod_cases3)
  have "tree_kept (\<lambda>k p v. ReadDir n E k p v)"
    unfolding tree_kept_def using ReadDir_in_tree by blast
  from UpdateNode_with_in_tree [OF this u t1] have "in_tree fn2" .
  with u fr show ?thesis
    by (auto simp: OpenDir_def UpdateNode_def Let_def)
qed

lemma IndexByName_Some: "IndexByName ks name = Some i \<Longrightarrow> i < length ks \<and> Nm (dat (ks ! i)) = name"
proof (induction ks arbitrary: i)
  case Nil
  then show ?case by simp
next
  case (Cons k ks)
  then show ?case by (auto split: if_splits)
qed

lemma descend_total:
  assumes "\<forall>p. within_depth E n p"
  shows "in_tree cfn \<Longrightarrow>
    \<exists>r. descend n E cfn ds w = Ret r \<and> (\<forall>t w'. r = Some (t, w') \<longrightarrow> in_tree t)"
proof (induction ds arbitrary: cfn w)
  case Nil
  then show ?case by simp
next
  case (Cons dr ds)
  show ?case
  proof (cases "IndexByName (Kids cfn) dr")
    case None
    then show ?thesis by simp
  next
    case (Some i)
    let ?sfn = "Kids cfn ! i"
    from IndexByName_Some [OF Some] Cons.prems have t: "in_tree ?sfn"
      by (simp add: in_tree_iff [of cfn] list_all_length)
    show ?thesis
    proof (cases "IsDir ?sfn")
      case False
      with Some show ?thesis by simp
    next
      case dir: True
      show ?thesis
      proof (cases "IsOpen ?sfn")
        case True
        with Some dir Cons.IH [OF t, of w] show ?thesis by simp
      next
        case False
        from OpenDir_total [OF assms t, of w] obtain sfn1 w1 where
          o: "OpenDir n E ?sfn w = Ret (sfn1, w1)" and t1: "in_tree sfn1" by blast
        with Some dir False Cons.IH [OF t1, of w1] show ?thesis by simp
      qed
    qed
  qed
qed

lemma OpenDirsTo_loop_missing:
  "descend n E cfn ds w = Ret (Some (t, w')) \<Longrightarrow> IndexByName (Kids t) d = None \<Longrightarrow>
   \<exists>cfn'. OpenDirsTo_loop n E cfn (ds @ [d]) w = Ret (Inr t, cfn', w')"
proof (induction ds arbitrary: cfn w)
  case Nil
  then show ?case by simp
next
  case (Cons dr ds)
  from Cons.prems(1) obtain i where i: "IndexByName (Kids cfn) dr = Some i"
    by (auto split: option.splits)
  let ?sfn = "Kids cfn ! i"
  from Cons.prems(1) i have dir: "IsDir ?sfn" by (auto simp: Let_def split: if_splits)
  from Cons.prems(1) i dir obtain sfn1 w1 where
    o: "(if ds @ [d] \<noteq> [] \<and> \<not> IsOpen ?sfn then OpenDir n E ?sfn w else Ret (?sfn, w))
          = Ret (sfn1, w1)"
    and d: "descend n E sfn1 ds w1 = Ret (Some (t, w'))"
    by (auto simp: Let_def split: if_splits outcome.splits)
  from Cons.IH [OF d Cons.prems(2)] obtain sfn2 where
    "OpenDirsTo_loop n E sfn1 (ds @ [d]) w1 = Ret (Inr t, sfn2, w')" by blast
  with i dir o show ?case by (simp add: Let_def)
qed

lemma OpenDirsTo_loop_not_dir:
  "descend n E cfn ds w = Ret (Some (t, w')) \<Longrightarrow> IndexByName (Kids t) d = Some j \<Longrightarrow>
   \<not> IsDir (Kids t ! j) \<Longrightarrow> rest \<noteq> [] \<Longrightarrow>
   \<exists>cfn'. OpenDirsTo_loop n E cfn (ds @ d # rest) w =
      Ret (Inl ''giv.FileNode non-terminal node is not a directory'', cfn',
           log_line w' ''giv.FileNode non-terminal node is not a directory'')"
proof (induction ds arbitrary: cfn w)
  case Nil
  then show ?case by (simp add: Let_def)
next
  case (Cons dr ds)
  from Cons.prems(1) obtain i where i: "IndexByName (Kids cfn) dr = Some i"
    by (auto split: option.splits)
  let ?sfn = "Kids cfn ! i"
  from Cons.prems(1) i have dir: "IsDir ?sfn" by (auto simp: Let_def split: if_splits)
  from Cons.prems(1) i dir obtain sfn1 w1 where
    o: "(if ds @ d # rest \<noteq> [] \<and> \<not> IsOpen ?sfn then OpenDir n E ?sfn w else Ret (?sfn, w))
          = Ret (sfn1, w1)"
    and d: "descend n E sfn1 ds w1 = Ret (Some (t, w'))"
    by (auto simp: Let_def split: if_splits outcome.splits)
  from Cons.IH [OF d Cons.prems(2,3,4)] obtain sfn2 where
    "OpenDirsTo_loop n E sfn1 (ds @ d # rest) w1 =
      Ret (Inl ''giv.FileNode non-terminal node is not a directory'', sfn2,
           log_line w' ''giv.FileNode non-terminal node is not a directory'')" by blast
  with i dir o show ?case by (simp add: Let_def)
qed

text \<open>
  Claim C6.  Let every node of \<open>fn\<close> belong to a tree, let the file system be
  nowhere \<open>n\<close> levels deep, let the relative path from the node to the target be
  neither \<^verbatim>\<open>.\<close> nor empty, and let its components be \<open>ds\<close>, then \<open>d\<close>, then \<open>rest\<close>.
  Then the walk along \<open>ds\<close> returns: each call of OpenDir on the way does, within
  the depth \<open>n\<close>.  When each component of \<open>ds\<close> has resolved in turn to a child that
  is a directory (opened on the way when it was not open), and the walk has ended
  at the node \<open>t\<close>: if \<open>d\<close> is the last component and \<open>t\<close> has no child of that name,
  OpenDirsTo returns \<open>t\<close>, the deepest node found, and no error; if \<open>d\<close> is not the
  last component and resolves to a child of \<open>t\<close> that is not a directory,
  OpenDirsTo returns the error that a non-terminal node is not a directory, and
  logs it, without descending further.
\<close>

theorem OpenDirsTo_walk:
  assumes "filepath_Abs E path = Inr pth"
    and "filepath_Rel E (FPath (dat fn)) pth = Inr rpath"
    and "rpath \<noteq> ''.''" and "rpath \<noteq> []"
    and "strings_Split rpath (os_Separator E) = ds @ d # rest"
    and "\<forall>p. within_depth E n p" and "in_tree fn"
  shows "(\<exists>r. descend n E fn ds w = Ret r) \<and>
         (\<forall>t w'. descend n E fn ds w = Ret (Some (t, w')) \<longrightarrow>
            (rest = [] \<and> IndexByName (Kids t) d = None \<longrightarrow>
               (\<exists>fn'. OpenDirsTo n E fn path w = Ret (Inr t, fn', w'))) \<and>
            (rest \<noteq> [] \<and> (\<exists>j. IndexByName (Kids t) d = Some j \<and> \<not> IsDir (Kids t ! j)) \<longrightarrow>
               (\<exists>fn'. OpenDirsTo n E fn path w =
                  Ret (Inl ''giv.FileNode non-terminal node is not a directory'', fn',
                       log_line w' ''giv.FileNode non-terminal node is not a directory''))))"
proof -
  have u: "OpenDirsTo n E fn path w = OpenDirsTo_loop n E fn (ds @ d # rest) w"
    using assms(1-5) by (simp add: OpenDirsTo_def RelPath_def)
  from descend_total [OF assms(6,7), of ds w]
  have ret: "\<exists>r. descend n E fn ds w = Ret r" by blast
  have "(rest = [] \<and> IndexByName (Kids t) d = None \<longrightarrow>
               (\<exists>fn'. OpenDirsTo n E fn path w = Ret (Inr t, fn', w'))) \<and>
            (rest \<noteq> [] \<and> (\<exists>j. IndexByName (Kids t) d = Some j \<and> \<not> IsDir (Kids t ! j)) \<longrightarrow>
               (\<exists>fn'. OpenDirsTo n E fn path w =
                  Ret (Inl ''giv.FileNode non-terminal node is not a directory'', fn',
                       log_line w' ''giv.FileNode non-terminal node is not a directory'')))"
    if dd: "descend n E fn ds w = Ret (Some (t, w'))" for t w'
  proof (intro conjI impI)
    assume "rest = [] \<and> IndexByName (Kids t) d = None"
    with OpenDirsTo_loop_missing [OF dd, of d] u
    show "\<exists>fn'. OpenDirsTo n E fn path w = Ret (Inr t, fn', w')" by simp
  next
    assume a: "rest \<noteq> [] \<and> (\<exists>j. IndexByName (Kids t) d = Some j \<and> \<not> IsDir (Kids t ! j))"
    then obtain j where "IndexByName (Kids t) d = Some j" "\<not> IsDir (Kids t ! j)" "rest \<noteq> []"
      by blast
    from OpenDirsTo_loop_not_dir [OF dd this] u
    show "\<exists>fn'. OpenDirsTo n E fn path w =
                  Ret (Inl ''giv.FileNode non-terminal node is not a directory'', fn',
                       log_line w' ''giv.FileNode non-terminal node is not a directory'')"
      by simp
  qed
  with ret show ?thesis by blast
qed

theorem OpenDirsTo_walk_witness:
  "(\<forall>p. within_depth ex_env 3 p) \<and> in_tree ex_root2 \<and>
   filepath_Abs ex_env ''/r/a/new.go'' = Inr ''/r/a/new.go'' \<and>
   filepath_Rel ex_env (FPath (dat ex_root2)) ''/r/a/new.go'' = Inr ''a/new.go'' \<and>
   strings_Split ''a/new.go'' (os_Separator ex_env) = [''a''] @ ''new.go'' # [] \<and>
   (\<exists>t w'. descend 3 ex_env ex_root2 [''a''] ex_world2 = Ret (Some (t, w')) \<and>
      IndexByName (Kids t) ''new.go'' = None \<and> Ptr (dat t) = 2 \<and>
      (\<exists>fn'. OpenDirsTo 3 ex_env ex_root2 ''/r/a/new.go'' ex_world2 = Ret (Inr t, fn', w'))) \<and>
   filepath_Abs ex_env ''/r/b.txt/z'' = Inr ''/r/b.txt/z'' \<and>
   filepath_Rel ex_env (FPath (dat ex_root2)) ''/r/b.txt/z'' = Inr ''b.txt/z'' \<and>
   strings_Split ''b.txt/z'' (os_Separator ex_env) = [] @ ''b.txt'' # [''z''] \<and>
   descend 3 ex_env ex_root2 [] ex_world2 = Ret (Some (ex_root2, ex_world2)) \<and>
   IndexByName (Kids ex_root2) ''b.txt'' = Some 1 \<and> \<not> IsDir (Kids ex_root2 ! 1) \<and>
   (\<exists>fn'. OpenDirsTo 3 ex_env ex_root2 ''/r/b.txt/z'' ex_world2 =
      Ret (Inl ''giv.FileNode non-terminal node is not a directory'', fn',
           log_line ex_world2 ''giv.FileNode non-terminal node is not a directory''))"
proof -
  have deep: "\<forall>p. within_depth ex_env 3 p"
    by (simp add: numeral_3_eq_3 listing_def entries_def ex_defs)
  have tr: "in_tree ex_root2"
    by (simp add: ex_root2_def ex_kid_def)
  have a: "filepath_Abs ex_env ''/r/a/new.go'' = Inr ''/r/a/new.go''"
    "filepath_Rel ex_env (FPath (dat ex_root2)) ''/r/a/new.go'' = Inr ''a/new.go''"
    "''a/new.go'' \<noteq> ''.''" "''a/new.go'' \<noteq> []"
    "strings_Split ''a/new.go'' (os_Separator ex_env) = [''a''] @ ''new.go'' # []"
    by (simp_all add: ex_defs strings_HasPrefix_def)
  have b: "filepath_Abs ex_env ''/r/b.txt/z'' = Inr ''/r/b.txt/z''"
    "filepath_Rel ex_env (FPath (dat ex_root2)) ''/r/b.txt/z'' = Inr ''b.txt/z''"
    "''b.txt/z'' \<noteq> ''.''" "''b.txt/z'' \<noteq> []"
    "strings_Split ''b.txt/z'' (os_Separator ex_env) = [] @ ''b.txt'' # [''z'']"
    by (simp_all add: ex_defs strings_HasPrefix_def)
  have d0: "descend 3 ex_env ex_root2 [] ex_world2 = Ret (Some (ex_root2, ex_world2))"
    by simp
  have c: "IndexByName (Kids ex_root2) ''b.txt'' = Some 1" "\<not> IsDir (Kids ex_root2 ! 1)"
    by (simp_all add: ex_defs IsDir_def FileInfo_IsDir_def)
  note first = OpenDirsTo_walk [OF a deep tr, of ex_world2]
  note second = OpenDirsTo_walk [OF b deep tr, of ex_world2]
  from first obtain r where r: "descend 3 ex_env ex_root2 [''a''] ex_world2 = Ret r" by blast
  have "\<exists>t w'. descend (Suc (Suc (Suc 0))) ex_env ex_root2 [''a''] ex_world2 = Ret (Some (t, w')) \<and>
      IndexByName (Kids t) ''new.go'' = None \<and> Ptr (dat t) = 2"
    by (simp add: ex_defs tree_eval)
  then obtain t w' where d: "descend 3 ex_env ex_root2 [''a''] ex_world2 = Ret (Some (t, w'))"
    and k: "IndexByName (Kids t) ''new.go'' = None" and p: "Ptr (dat t) = 2"
    by (auto simp: numeral_3_eq_3)
  from first d k
  have 1: "\<exists>fn'. OpenDirsTo 3 ex_env ex_root2 ''/r/a/new.go'' ex_world2 = Ret (Inr t, fn', w')"
    by blast
  from second d0 c
  have 2: "\<exists>fn'. OpenDirsTo 3 ex_env ex_root2 ''/r/b.txt/z'' ex_world2 =
      Ret (Inl ''giv.FileNode non-terminal node is not a directory'', fn',
           log_line ex_world2 ''giv.FileNode non-terminal node is not a directory'')"
    by blast
  from deep tr a b c d d0 k p 1 2 show ?thesis by blast
qed

subsection \<open>FindFile on a name of one byte\<close>

text \<open>The only panic of ReadDir, OpenDir and OpenDirsTo is the nil \<open>FRoot\<close>.\<close>

lemma ConfigOfFiles_panic: "ConfigOfFiles E fn path w = Panic m \<Longrightarrow> m = NilPointerDereference"
  by (auto simp: ConfigOfFiles_def Let_def split: option.splits prod.splits)

lemma UpdateNode_with_panic:
  assumes "\<And>k p v m. rd k p v = Panic m \<Longrightarrow> m = NilPointerDereference"
    and "UpdateNode_with rd E fn w = Panic m"
  shows "m = NilPointerDereference"
proof -
  obtain eo fi where i: "InitFile E (Info (dat fn)) (FPath (dat fn)) = (eo, fi)"
    by (cases "InitFile E (Info (dat fn)) (FPath (dat fn))")
  let ?fn1 = "set_Info fn fi"
  obtain b w1 where o: "IsDirOpen E (FPath (dat ?fn1)) w = (b, w1)"
    by (cases "IsDirOpen E (FPath (dat ?fn1)) w")
  show ?thesis
  proof (cases "rd ?fn1 (FPath (dat ?fn1)) w1")
    case (Panic m')
    with assms(1) have "m' = NilPointerDereference" by blast
    with assms(2) i o Panic show ?thesis
      by (auto simp: UpdateNode_with_def Let_def split: option.splits if_splits bool.splits)
  next
    case OutOfFuel
    with assms(2) i o show ?thesis
      by (auto simp: UpdateNode_with_def Let_def split: option.splits if_splits bool.splits)
  next
    case (Ret x)
    with assms(2) i o show ?thesis
      by (auto simp: UpdateNode_with_def Let_def
          split: option.splits if_splits bool.splits prod.splits)
  qed
qed

lemma SetNodePath_with_panic:
  assumes "\<And>k p v m. rd k p v = Panic m \<Longrightarrow> m = NilPointerDereference"
    and "SetNodePath_with rd E fn path w = Panic m"
  shows "m = NilPointerDereference"
proof (cases "filepath_Abs E path")
  case (Inl err)
  with assms(2) show ?thesis by (simp add: SetNodePath_with_def)
next
  case (Inr pth)
  obtain fn1 w1 where s: "set_FPath fn pth w = (fn1, w1)" by (cases "set_FPath fn pth w")
  with Inr assms(2) have "UpdateNode_with rd E fn1 w1 = Panic m"
    by (simp add: SetNodePath_with_def)
  from UpdateNode_with_panic [of rd, OF assms(1) this] show ?thesis .
qed

lemma ReadDir_kids_panic:
  assumes "\<And>k p v m. rd k p v = Panic m \<Longrightarrow> m = NilPointerDereference"
  shows "ReadDir_kids rd E froot path kids w = Panic m \<Longrightarrow> m = NilPointerDereference"
proof (induction kids arbitrary: w)
  case Nil
  then show ?case by simp
next
  case (Cons sf sfs)
  let ?sf1 = "set_FRoot sf froot"
  show ?case
  proof (cases "SetNodePath_with rd E ?sf1 (filepath_Join E [path, Nm (dat ?sf1)]) w")
    case OutOfFuel
    with Cons.prems show ?thesis by (simp add: Let_def)
  next
    case (Panic m')
    from SetNodePath_with_panic [of rd, OF assms this] Panic Cons.prems show ?thesis
      by (simp add: Let_def)
  next
    case (Ret x)
    obtain err sf2 w1 where x: "x = (err, sf2, w1)" by (cases x)
    with Ret Cons.prems have "ReadDir_kids rd E froot path sfs w1 = Panic m"
      by (auto simp: Let_def split: outcome.splits)
    from Cons.IH [OF this] show ?thesis .
  qed
qed

lemma ReadDir_panic: "ReadDir n E fn path w = Panic m \<Longrightarrow> m = NilPointerDereference"
proof (induction n arbitrary: fn path w m)
  case 0
  then show ?case by simp
next
  case (Suc n)
  have rd: "\<And>k p v m. ReadDir n E k p v = Panic m \<Longrightarrow> m = NilPointerDereference"
    using Suc.IH by simp
  from Suc.prems show ?case
    apply (auto simp: Let_def split: sum.splits prod.splits option.splits outcome.splits
        dest: ConfigOfFiles_panic)
    apply (erule ReadDir_kids_panic [rotated])
    apply (erule rd)
    done
qed

lemma OpenDir_panic: "OpenDir n E fn w = Panic m \<Longrightarrow> m = NilPointerDereference"
proof -
  have rd: "\<And>k p v m. ReadDir n E k p v = Panic m \<Longrightarrow> m = NilPointerDereference"
    using ReadDir_panic by simp
  assume "OpenDir n E fn w = Panic m"
  then show ?thesis
    apply (auto simp: OpenDir_def UpdateNode_def Let_def split: option.splits outcome.splits)
    apply (erule UpdateNode_with_panic [rotated])
    apply (erule rd)
    done
qed

lemma OpenDirsTo_loop_panic:
  "OpenDirsTo_loop n E cfn dirs w = Panic m \<Longrightarrow> m = NilPointerDereference"
proof (induction dirs arbitrary: cfn w)
  case Nil
  then show ?case by simp
next
  case (Cons dr rest)
  from Cons.prems show ?case
    by (auto simp: Let_def split: option.splits if_splits outcome.splits
        dest: OpenDir_panic Cons.IH)
qed

lemma OpenDirsTo_panic: "OpenDirsTo n E fn path w = Panic m \<Longrightarrow> m = NilPointerDereference"
  by (auto simp: OpenDirsTo_def split: sum.splits prod.splits if_splits
      dest: OpenDirsTo_loop_panic)

text \<open>
  Claim C10.  FindFile is not total on non-empty strings: on every search string of
  length 1, whatever the node, the environment and the state, the slice
  \<^verbatim>\<open>fneff[:2]\<close> is out of range and the call panics; and FindFile panics so on no
  other string (the slice is in range when the string is empty or has at least
  two bytes).
\<close>

theorem FindFile_single_byte:
  "FindFile n E fn fnm w = Panic SliceBoundsOutOfRange \<longleftrightarrow> length fnm = 1"
proof
  assume "length fnm = 1"
  then show "FindFile n E fn fnm w = Panic SliceBoundsOutOfRange"
    by (auto simp: FindFile_def)
next
  assume p: "FindFile n E fn fnm w = Panic SliceBoundsOutOfRange"
  show "length fnm = 1"
  proof (rule ccontr)
    assume "length fnm \<noteq> 1"
    then have "length fnm = 0 \<or> 2 \<le> length fnm" by arith
    then have "fnm = [] \<or> 2 \<le> length fnm" by simp
    with p show False
      by (auto simp: FindFile_def Let_def split: if_splits outcome.splits sum.splits
          dest: OpenDirsTo_panic)
  qed
qed

theorem FindFile_single_byte_witness:
  "length ''x'' = 1 \<and> FindFile 3 ex_env ex_root ''x'' ex_world = Panic SliceBoundsOutOfRange"
  using FindFile_single_byte [of 3 ex_env ex_root "''x''" ex_world] by simp

end
